theory Spec2Isabelle
  imports Main "HOL-Library.Word"
begin

section \<open>The in-memory LRU cache of retro-metadata (cache/memory.hpp, cache/memory.cpp)\<close>

subsection \<open>Time\<close>

text \<open>
  A \<^verbatim>\<open>std::chrono::steady_clock::time_point\<close> is the number of clock ticks since the
  clock's epoch; the default-constructed \<^verbatim>\<open>time_point{}\<close> is the epoch itself, tick 0.
  A \<^verbatim>\<open>std::chrono::seconds\<close> is a number of seconds. Both counts are signed 64-bit
  integers (\<^verbatim>\<open>int64_t\<close>): words of 64 bits read in two's complement (\<open>sint\<close>), whose
  sum and product wrap around. Signed overflow is undefined behaviour in C++; the model
  gives it the wrapped result the compiled code computes, and \<open>deadline_fits\<close> below says
  of a call of \<open>set\<close> that its arithmetic does not overflow. Every operation that reads
  \<^verbatim>\<open>steady_clock::now()\<close> takes the reading as its argument \<open>now\<close>: one reading
  for each time the lock is taken. \<open>stats\<close> and \<open>cleanup_expired\<close>, which read the
  clock once per entry while they hold the lock, are modelled with one reading;
  \<open>get_many\<close>, which takes the lock once per key, has one reading per key.
\<close>

type_synonym time_point = "64 word"
type_synonym seconds = "64 word"

text \<open>The period of \<^verbatim>\<open>steady_clock\<close> is a nanosecond (libstdc++ and libc++):
  \<^verbatim>\<open>now() + ttl\<close> converts the seconds of \<open>ttl\<close> into ticks, a multiplication by
  \<open>10^9\<close> in \<^verbatim>\<open>int64_t\<close>, and adds them to the reading, again in \<^verbatim>\<open>int64_t\<close>.\<close>

definition ticks_per_second :: "64 word" where
  "ticks_per_second = 1000000000"

subsection \<open>Data\<close>

text \<open>\<^verbatim>\<open>struct MemoryCacheOptions\<close>; \<^verbatim>\<open>max_size\<close> is a C++ \<^verbatim>\<open>int\<close>, a
  32-bit word read in two's complement (\<open>sint\<close>).\<close>

record MemoryCacheOptions =
  max_size :: "32 word"
  default_ttl :: seconds
  cleanup_interval :: seconds

text \<open>The defaults of the struct: 10000 entries, one hour, one minute.\<close>

definition default_options :: MemoryCacheOptions where
  "default_options = \<lparr>max_size = 10000, default_ttl = 3600, cleanup_interval = 60\<rparr>"

text \<open>\<^verbatim>\<open>struct MemoryCache::Entry\<close>; the payload (\<^verbatim>\<open>std::any value\<close>) is the type
  parameter \<open>'v\<close>, the field is called \<open>val\<close> here.\<close>

record 'v Entry =
  key :: string
  val :: 'v
  expires_at :: time_point

text \<open>\<^verbatim>\<open>Entry::is_expired\<close>: the epoch is the sentinel of an entry that never expires;
  \<^verbatim>\<open>now() > expires_at\<close> compares the two signed counts.\<close>

definition is_expired :: "time_point \<Rightarrow> 'v Entry \<Rightarrow> bool" where
  "is_expired now e = (if expires_at e = 0 then False else sint (expires_at e) < sint now)"

text \<open>
  A \<^verbatim>\<open>std::list<Entry>::iterator\<close> designates one node of the list and stays valid
  while the node is in the list, wherever the node is moved. It is modelled as the
  identity of the node (its address), a natural number; the list \<^verbatim>\<open>lru_\<close> is the
  list of the nodes, front (least recently used) first, each with its identity.
\<close>

type_synonym iterator = nat
type_synonym 'v node = "iterator \<times> 'v Entry"

text \<open>The fields of \<^verbatim>\<open>class MemoryCache\<close> but the mutex, the stop flag and the
  cleanup thread, each without the underscore that ends its C++ name (\<open>lru\<close> is
  \<^verbatim>\<open>lru_\<close>). The counters are \<^verbatim>\<open>std::atomic<int64_t>\<close>.\<close>

record 'v MemoryCache =
  options :: MemoryCacheOptions
  cache :: "string \<rightharpoonup> iterator"
  lru :: "'v node list"
  hits :: "64 word"
  misses :: "64 word"

text \<open>\<^verbatim>\<open>struct CacheStats\<close> (cache/cache.hpp); its fields \<^verbatim>\<open>size\<close>, \<^verbatim>\<open>max_size\<close>,
  \<^verbatim>\<open>expired_count\<close>, \<^verbatim>\<open>hits\<close> and \<^verbatim>\<open>misses\<close> carry the prefix \<open>stat_\<close>.\<close>

record CacheStats =
  stat_size :: "32 word"
  stat_max_size :: "32 word"
  stat_expired_count :: "32 word"
  stat_hits :: "64 word"
  stat_misses :: "64 word"

text \<open>Using an iterator whose node is no longer in the list is undefined behaviour in
  C++; the model returns this fault instead.\<close>

datatype fault = InvalidIterator

subsection \<open>The list operations on nodes\<close>

text \<open>\<^verbatim>\<open>*it\<close>: the entry of the node an iterator designates.\<close>

definition deref :: "'v node list \<Rightarrow> iterator \<Rightarrow> 'v Entry option" where
  "deref ns it = map_of ns it"

text \<open>\<^verbatim>\<open>lru_.erase(it)\<close>: unlink the node.\<close>

definition list_erase :: "iterator \<Rightarrow> 'v node list \<Rightarrow> 'v node list" where
  "list_erase it ns = filter (\<lambda>n. fst n \<noteq> it) ns"

text \<open>\<^verbatim>\<open>lru_.splice(lru_.end(), lru_, it)\<close>: relink the node at the back.\<close>

definition splice_end :: "iterator \<Rightarrow> 'v node list \<Rightarrow> 'v node list" where
  "splice_end it ns = filter (\<lambda>n. fst n \<noteq> it) ns @ filter (\<lambda>n. fst n = it) ns"

text \<open>\<^verbatim>\<open>it->value = v; it->expires_at = t\<close>: assignment through the iterator.\<close>

definition assign :: "iterator \<Rightarrow> 'v \<Rightarrow> time_point \<Rightarrow> 'v node list \<Rightarrow> 'v node list" where
  "assign it v t ns =
     map (\<lambda>n. if fst n = it then (fst n, (snd n)\<lparr>val := v, expires_at := t\<rparr>) else n) ns"

text \<open>\<^verbatim>\<open>push_back\<close> allocates a node; its identity differs from that of every node of
  the list. The model takes the least number above them.\<close>

fun new_node :: "'v node list \<Rightarrow> iterator" where
  "new_node [] = 0"
| "new_node (n # ns) = max (Suc (fst n)) (new_node ns)"

subsection \<open>The operations\<close>

text \<open>
  Each member function of \<^verbatim>\<open>MemoryCache\<close> (cache/memory.cpp) is a function of the
  state before the call, run under the lock the function takes: the calls of the
  threads are sequences of such functions. A function that changes the state returns
  the state after the call next to its result; a function that uses an iterator returns
  a \<open>fault\<close> where the iterator is invalid. Left out are the cleanup thread itself (its
  sweep \<^verbatim>\<open>cleanup_expired\<close> is modelled), the move constructor and \<^verbatim>\<open>set_many\<close>,
  which iterates over an unordered map.
\<close>

text \<open>The constructor: an empty cache with the given options.\<close>

definition MemoryCache_new :: "MemoryCacheOptions \<Rightarrow> 'v MemoryCache" where
  "MemoryCache_new opts =
     \<lparr>options = opts, cache = Map.empty, lru = [], hits = 0, misses = 0\<rparr>"

text \<open>\<^verbatim>\<open>static_cast<int>(lru_.size())\<close>: the low 32 bits of the length, read as signed.\<close>

definition static_cast_int :: "nat \<Rightarrow> 32 word" where
  "static_cast_int n = word_of_nat n"

text \<open>
  \<^verbatim>\<open>evict_if_needed\<close>:
  \<^verbatim>\<open>while (static_cast<int>(lru_.size()) >= options_.max_size) {
      if (lru_.empty()) break;
      auto oldest = lru_.begin();
      cache_.erase(oldest->key);
      lru_.erase(oldest); }\<close>
\<close>

function evict_if_needed :: "'v MemoryCache \<Rightarrow> 'v MemoryCache" where
  "evict_if_needed s =
     (if sint (max_size (options s)) \<le> sint (static_cast_int (length (lru s))) then
        (case lru s of
           [] \<Rightarrow> s
         | oldest # rest \<Rightarrow>
             evict_if_needed
               (s\<lparr>cache := (cache s)(key (snd oldest) := None), lru := rest\<rparr>))
      else s)"
  by pat_completeness auto
termination
  by (relation "measure (\<lambda>s. length (lru s))") auto

declare evict_if_needed.simps [simp del]

text \<open>\<^verbatim>\<open>get\<close>: the result is the returned optional and the state after the call.\<close>

definition get :: "time_point \<Rightarrow> string \<Rightarrow> 'v MemoryCache \<Rightarrow> fault + ('v option \<times> 'v MemoryCache)" where
  "get now k s =
     (case cache s k of
        None \<Rightarrow> Inr (None, s\<lparr>misses := misses s + 1\<rparr>)
      | Some it \<Rightarrow>
          (case deref (lru s) it of
             None \<Rightarrow> Inl InvalidIterator
           | Some entry \<Rightarrow>
               if is_expired now entry then
                 Inr (None, s\<lparr>lru := list_erase it (lru s),
                               cache := (cache s)(k := None),
                               misses := misses s + 1\<rparr>)
               else
                 Inr (Some (val entry), s\<lparr>lru := splice_end it (lru s),
                                           hits := hits s + 1\<rparr>)))"

text \<open>\<^verbatim>\<open>set\<close>, called \<open>set_entry\<close> here (\<open>set\<close> is HOL's set of a list). The deadline
  \<^verbatim>\<open>now() + ttl\<close> is computed in 64-bit ticks and wraps around where it overflows.\<close>

definition set_entry ::
  "time_point \<Rightarrow> string \<Rightarrow> 'v \<Rightarrow> seconds \<Rightarrow> 'v MemoryCache \<Rightarrow> fault + 'v MemoryCache" where
  "set_entry now k v ttl0 s =
     (let ttl = (if ttl0 = 0 then default_ttl (options s) else ttl0);
          expires = (if 0 < sint ttl then now + ttl * ticks_per_second else 0)
      in case cache s k of
           Some it \<Rightarrow>
             (case deref (lru s) it of
                None \<Rightarrow> Inl InvalidIterator
              | Some entry \<Rightarrow>
                  Inr (s\<lparr>lru := assign it v expires (splice_end it (lru s))\<rparr>))
         | None \<Rightarrow>
             (let s1 = evict_if_needed s;
                  it = new_node (lru s1)
              in Inr (s1\<lparr>lru := lru s1 @ [(it, \<lparr>key = k, val = v, expires_at = expires\<rparr>)],
                         cache := (cache s1)(k \<mapsto> it)\<rparr>)))"

text \<open>\<^verbatim>\<open>remove\<close>.\<close>

definition remove :: "string \<Rightarrow> 'v MemoryCache \<Rightarrow> fault + (bool \<times> 'v MemoryCache)" where
  "remove k s =
     (case cache s k of
        None \<Rightarrow> Inr (False, s)
      | Some it \<Rightarrow>
          (case deref (lru s) it of
             None \<Rightarrow> Inl InvalidIterator
           | Some entry \<Rightarrow>
               Inr (True, s\<lparr>lru := list_erase it (lru s), cache := (cache s)(k := None)\<rparr>)))"

text \<open>\<^verbatim>\<open>exists\<close>: it holds the shared lock and changes nothing.\<close>

definition exists :: "time_point \<Rightarrow> string \<Rightarrow> 'v MemoryCache \<Rightarrow> fault + bool" where
  "exists now k s =
     (case cache s k of
        None \<Rightarrow> Inr False
      | Some it \<Rightarrow>
          (case deref (lru s) it of
             None \<Rightarrow> Inl InvalidIterator
           | Some entry \<Rightarrow> Inr (\<not> is_expired now entry)))"

text \<open>\<^verbatim>\<open>clear\<close>, and \<^verbatim>\<open>close\<close>, which stops the cleanup thread and clears.\<close>

definition clear :: "'v MemoryCache \<Rightarrow> 'v MemoryCache" where
  "clear s = s\<lparr>cache := Map.empty, lru := []\<rparr>"

definition close :: "'v MemoryCache \<Rightarrow> 'v MemoryCache" where
  "close s = clear s"

text \<open>
  The move assignment \<^verbatim>\<open>MemoryCache::operator=(MemoryCache&& other)\<close> on an instance
  in state \<open>s\<close>, for another instance in state \<open>other\<close> (assigning an instance to itself
  changes nothing):
  \<^verbatim>\<open>close();
    options_ = std::move(other.options_);
    cache_ = std::move(other.cache_);
    lru_ = std::move(other.lru_);
    hits_ = other.hits_.load();
    misses_ = other.misses_.load();\<close>
  The result is the state of the assigned instance. The nodes of the list move with the
  list, so the iterators of the index stay valid.
\<close>

definition move_assign :: "'v MemoryCache \<Rightarrow> 'v MemoryCache \<Rightarrow> 'v MemoryCache" where
  "move_assign s other =
     (close s)\<lparr>options := options other, cache := cache other, lru := lru other,
               hits := hits other, misses := misses other\<rparr>"

text \<open>\<^verbatim>\<open>stats\<close>: \<^verbatim>\<open>expired_count\<close> is an \<^verbatim>\<open>int\<close> incremented once per expired entry.\<close>

fun count_expired :: "time_point \<Rightarrow> 'v node list \<Rightarrow> 32 word \<Rightarrow> 32 word" where
  "count_expired now [] expired_count = expired_count"
| "count_expired now (n # ns) expired_count =
     count_expired now ns (if is_expired now (snd n) then expired_count + 1 else expired_count)"

definition stats :: "time_point \<Rightarrow> 'v MemoryCache \<Rightarrow> CacheStats" where
  "stats now s =
     \<lparr>stat_size = static_cast_int (length (lru s)),
      stat_max_size = max_size (options s),
      stat_expired_count = count_expired now (lru s) 0,
      stat_hits = hits s,
      stat_misses = misses s\<rparr>"

text \<open>\<^verbatim>\<open>size\<close>, called \<open>size_entries\<close> here: \<^verbatim>\<open>lru_.size()\<close>, a \<^verbatim>\<open>size_t\<close>.\<close>

definition size_entries :: "'v MemoryCache \<Rightarrow> nat" where
  "size_entries s = length (lru s)"

text \<open>\<^verbatim>\<open>cleanup_expired\<close>, the sweep of the cleanup thread: every expired node is
  unlinked and its key erased from the index.\<close>

fun cleanup_loop_body :: "time_point \<Rightarrow> 'v node list \<Rightarrow> (string \<rightharpoonup> iterator) \<Rightarrow> (string \<rightharpoonup> iterator) \<times> 'v node list" where
  "cleanup_loop_body now [] c = (c, [])"
| "cleanup_loop_body now (n # ns) c =
     (if is_expired now (snd n) then cleanup_loop_body now ns (c(key (snd n) := None))
      else (let (c', ns') = cleanup_loop_body now ns c in (c', n # ns')))"

definition cleanup_expired :: "time_point \<Rightarrow> 'v MemoryCache \<Rightarrow> 'v MemoryCache" where
  "cleanup_expired now s =
     (let (c, ns) = cleanup_loop_body now (lru s) (cache s) in s\<lparr>cache := c, lru := ns\<rparr>)"

text \<open>\<^verbatim>\<open>get_many\<close>: one \<open>get\<close> per key, in the order of the vector; a found value is
  stored in the result under its key. Each key comes with the reading of the clock
  during its \<open>get\<close>.\<close>

fun get_many_loop ::
  "(time_point \<times> string) list \<Rightarrow> (string \<rightharpoonup> 'v) \<Rightarrow> 'v MemoryCache \<Rightarrow>
     fault + ((string \<rightharpoonup> 'v) \<times> 'v MemoryCache)" where
  "get_many_loop [] result s = Inr (result, s)"
| "get_many_loop ((now, k) # ks) result s =
     (case get now k s of
        Inl f \<Rightarrow> Inl f
      | Inr (v, s') \<Rightarrow>
          get_many_loop ks (case v of None \<Rightarrow> result | Some x \<Rightarrow> result(k \<mapsto> x)) s')"

definition get_many ::
  "(time_point \<times> string) list \<Rightarrow> 'v MemoryCache \<Rightarrow>
     fault + ((string \<rightharpoonup> 'v) \<times> 'v MemoryCache)" where
  "get_many keys s = get_many_loop keys Map.empty s"

text \<open>\<^verbatim>\<open>delete_many\<close>: one \<open>remove\<close> per key; \<^verbatim>\<open>count\<close> is an \<^verbatim>\<open>int\<close>.\<close>

fun delete_many_loop ::
  "string list \<Rightarrow> 32 word \<Rightarrow> 'v MemoryCache \<Rightarrow> fault + (32 word \<times> 'v MemoryCache)" where
  "delete_many_loop [] count s = Inr (count, s)"
| "delete_many_loop (k # ks) count s =
     (case remove k s of
        Inl f \<Rightarrow> Inl f
      | Inr (removed, s') \<Rightarrow> delete_many_loop ks (if removed then count + 1 else count) s')"

definition delete_many :: "string list \<Rightarrow> 'v MemoryCache \<Rightarrow> fault + (32 word \<times> 'v MemoryCache)" where
  "delete_many keys s = delete_many_loop keys 0 s"

subsection \<open>Calls and runs\<close>

text \<open>The public operations of one cache instance as values, and the sweep of the
  cleanup thread (\<open>CleanupExpired\<close>), which takes the same exclusive lock as the
  mutating operations. \<open>step\<close> performs one call and keeps the state after it;
  \<open>run\<close> performs a sequence of calls, as the lock linearizes them.\<close>

datatype 'v call =
    Get time_point string
  | Set time_point string 'v seconds
  | Remove string
  | Exists time_point string
  | Clear
  | Close
  | Stats time_point
  | CleanupExpired time_point

fun step :: "'v call \<Rightarrow> 'v MemoryCache \<Rightarrow> fault + 'v MemoryCache" where
  "step (Get now k) s = (case get now k s of Inl f \<Rightarrow> Inl f | Inr (r, s') \<Rightarrow> Inr s')"
| "step (Set now k v ttl) s = set_entry now k v ttl s"
| "step (Remove k) s = (case remove k s of Inl f \<Rightarrow> Inl f | Inr (r, s') \<Rightarrow> Inr s')"
| "step (Exists now k) s = (case exists now k s of Inl f \<Rightarrow> Inl f | Inr r \<Rightarrow> Inr s)"
| "step Clear s = Inr (clear s)"
| "step Close s = Inr (close s)"
| "step (Stats now) s = Inr s"
| "step (CleanupExpired now) s = Inr (cleanup_expired now s)"

fun run :: "'v call list \<Rightarrow> 'v MemoryCache \<Rightarrow> fault + 'v MemoryCache" where
  "run [] s = Inr s"
| "run (c # cs) s = (case step c s of Inl f \<Rightarrow> Inl f | Inr s' \<Rightarrow> run cs s')"

subsection \<open>The representation invariant and the observations the properties speak of\<close>

text \<open>
  The invariant of the two structures: the nodes of \<^verbatim>\<open>lru_\<close> are pairwise different,
  the index \<^verbatim>\<open>cache_\<close> maps the key of every node to that node and has no other
  key, and the list is no longer than \<open>max 1 max_size\<close> (so that its length fits an
  \<^verbatim>\<open>int\<close>). The constructor establishes it and every operation keeps it, so it
  holds in every state a new cache reaches (\<open>cache_inv_new\<close>, \<open>step_inv\<close> and
  \<open>cache_inv_reachable\<close> below).
\<close>

definition cache_inv :: "'v MemoryCache \<Rightarrow> bool" where
  "cache_inv s \<longleftrightarrow>
     distinct (map fst (lru s)) \<and>
     (\<forall>n \<in> set (lru s). cache s (key (snd n)) = Some (fst n)) \<and>
     dom (cache s) \<subseteq> (\<lambda>n. key (snd n)) ` set (lru s) \<and>
     int (length (lru s)) \<le> max 1 (sint (max_size (options s)))"

text \<open>The deadline \<open>set\<close> computes from the reading of the clock and its \<open>ttl\<close>.\<close>

definition deadline :: "MemoryCacheOptions \<Rightarrow> time_point \<Rightarrow> seconds \<Rightarrow> time_point" where
  "deadline opts now ttl =
     (let t = (if ttl = 0 then default_ttl opts else ttl)
      in if 0 < sint t then now + t * ticks_per_second else 0)"

text \<open>
  The arithmetic of that deadline is within the range of \<^verbatim>\<open>int64_t\<close>: with \<open>t\<close> the
  time-to-live after the substitution of the default, either \<open>t\<close> is not positive (no
  deadline is computed) or both the ticks of \<open>t\<close> and their sum with the reading of the
  clock are below \<open>2^63\<close>. Where this fails, \<^verbatim>\<open>now() + ttl\<close> is a signed overflow.
\<close>

definition deadline_fits :: "MemoryCacheOptions \<Rightarrow> time_point \<Rightarrow> seconds \<Rightarrow> bool" where
  "deadline_fits opts now ttl =
     (let t = (if ttl = 0 then default_ttl opts else ttl)
      in if 0 < sint t
         then sint t * 1000000000 < 2 ^ 63 \<and> sint now + sint t * 1000000000 < 2 ^ 63
         else True)"

text \<open>A call whose arithmetic on ticks is within range: only \<open>set\<close> computes on ticks.\<close>

fun call_fits :: "MemoryCacheOptions \<Rightarrow> 'v call \<Rightarrow> bool" where
  "call_fits opts (Set now k v ttl) = deadline_fits opts now ttl"
| "call_fits opts (Get now k) = True"
| "call_fits opts (Remove k) = True"
| "call_fits opts (Exists now k) = True"
| "call_fits opts Clear = True"
| "call_fits opts Close = True"
| "call_fits opts (Stats now) = True"
| "call_fits opts (CleanupExpired now) = True"

text \<open>The entry physically stored under a key, expired or not.\<close>

definition find_entry :: "'v MemoryCache \<Rightarrow> string \<Rightarrow> 'v Entry option" where
  "find_entry s k = (case cache s k of None \<Rightarrow> None | Some it \<Rightarrow> deref (lru s) it)"

text \<open>The value logically present under a key at a reading of the clock: the value of
  the stored entry unless the entry is expired.\<close>

definition live_value :: "time_point \<Rightarrow> 'v MemoryCache \<Rightarrow> string \<Rightarrow> 'v option" where
  "live_value now s k =
     (case find_entry s k of
        None \<Rightarrow> None
      | Some e \<Rightarrow> if is_expired now e then None else Some (val e))"

text \<open>The reading of the clock at the first \<open>get\<close> of a key in a bulk read, and the
  value logically present under the key at that reading.\<close>

fun first_reading :: "(time_point \<times> string) list \<Rightarrow> string \<Rightarrow> time_point option" where
  "first_reading [] k = None"
| "first_reading ((now, j) # ks) k = (if j = k then Some now else first_reading ks k)"

definition found_at ::
  "(time_point \<times> string) list \<Rightarrow> 'v MemoryCache \<Rightarrow> string \<Rightarrow> 'v option" where
  "found_at keys s k =
     (case first_reading keys k of None \<Rightarrow> None | Some now \<Rightarrow> live_value now s k)"

text \<open>The recency order: the keys from least to most recently used.\<close>

definition recency_order :: "'v MemoryCache \<Rightarrow> string list" where
  "recency_order s = map (\<lambda>n. key (snd n)) (lru s)"

text \<open>The number of live entries: those stored and not expired.\<close>

definition live_count :: "time_point \<Rightarrow> 'v MemoryCache \<Rightarrow> nat" where
  "live_count now s = length (filter (\<lambda>n. \<not> is_expired now (snd n)) (lru s))"

subsection \<open>Example states\<close>

text \<open>A cache of at most three entries with a default time-to-live of five minutes.\<close>

definition example_options :: MemoryCacheOptions where
  "example_options = \<lparr>max_size = 3, default_ttl = 300, cleanup_interval = 60\<rparr>"

text \<open>The state after \<^verbatim>\<open>set("a", 7, 1s)\<close> at tick 1 on the new cache: one entry,
  with its deadline one second later. At tick 2000000000 the entry is expired and,
  until something removes it, still in the store.\<close>

definition stale_entry :: "nat Entry" where
  "stale_entry = \<lparr>key = ''a'', val = 7, expires_at = 1000000001\<rparr>"

definition stale_state :: "nat MemoryCache" where
  "stale_state =
     \<lparr>options = example_options, cache = [''a'' \<mapsto> 0], lru = [(0, stale_entry)],
      hits = 0, misses = 0\<rparr>"

text \<open>The state after \<^verbatim>\<open>set("a", 8)\<close> at tick 2000000000 on \<open>stale_state\<close>: the
  entry is overwritten, with the default time-to-live of 300 seconds.\<close>

definition refreshed_state :: "nat MemoryCache" where
  "refreshed_state =
     \<lparr>options = example_options, cache = [''a'' \<mapsto> 0],
      lru = [(0, \<lparr>key = ''a'', val = 8, expires_at = 302000000000\<rparr>)],
      hits = 0, misses = 0\<rparr>"

text \<open>The scenario of the recency order: a cache of at most three entries; A, B and C
  are set, A is read, D is set. \<open>lru_example_full\<close> is the state before the last call,
  \<open>lru_example_state\<close> the state after it.\<close>

definition lru_example_full :: "nat MemoryCache" where
  "lru_example_full =
     \<lparr>options = example_options,
      cache = [''A'' \<mapsto> 0, ''B'' \<mapsto> 1, ''C'' \<mapsto> 2],
      lru = [(1, \<lparr>key = ''B'', val = 2, expires_at = 300000000002\<rparr>),
             (2, \<lparr>key = ''C'', val = 3, expires_at = 300000000003\<rparr>),
             (0, \<lparr>key = ''A'', val = 1, expires_at = 300000000001\<rparr>)],
      hits = 1, misses = 0\<rparr>"

definition lru_example_state :: "nat MemoryCache" where
  "lru_example_state =
     \<lparr>options = example_options,
      cache = [''A'' \<mapsto> 0, ''C'' \<mapsto> 2, ''D'' \<mapsto> 3],
      lru = [(2, \<lparr>key = ''C'', val = 3, expires_at = 300000000003\<rparr>),
             (0, \<lparr>key = ''A'', val = 1, expires_at = 300000000001\<rparr>),
             (3, \<lparr>key = ''D'', val = 4, expires_at = 300000000005\<rparr>)],
      hits = 1, misses = 0\<rparr>"

text \<open>A cache configured with a capacity of zero, and its state after
  \<^verbatim>\<open>set("a", 7)\<close> at tick 1.\<close>

definition zero_capacity_options :: MemoryCacheOptions where
  "zero_capacity_options = \<lparr>max_size = 0, default_ttl = 300, cleanup_interval = 60\<rparr>"

definition zero_capacity_state :: "nat MemoryCache" where
  "zero_capacity_state =
     \<lparr>options = zero_capacity_options, cache = [''a'' \<mapsto> 0],
      lru = [(0, \<lparr>key = ''a'', val = 7, expires_at = 300000000001\<rparr>)],
      hits = 0, misses = 0\<rparr>"

text \<open>The state after \<^verbatim>\<open>set("a", 7, std::chrono::seconds{9223372037})\<close> at tick 1 on
  the new cache: the ticks of that time-to-live, 9223372037000000000, are more than
  \<open>2^63 - 1\<close>, and the deadline is the sum wrapped around.\<close>

definition overflow_state :: "nat MemoryCache" where
  "overflow_state =
     \<lparr>options = example_options, cache = [''a'' \<mapsto> 0],
      lru = [(0, \<lparr>key = ''a'', val = 7, expires_at = - 9223372036709551615\<rparr>)],
      hits = 0, misses = 0\<rparr>"

section \<open>Lemmas\<close>

subsection \<open>Nodes and iterators\<close>

lemma deref_Some_iff: "distinct (map fst ns) \<Longrightarrow> deref ns it = Some e \<longleftrightarrow> (it, e) \<in> set ns"
  by (simp add: deref_def)

lemma filter_id_single:
  "distinct (map fst ns) \<Longrightarrow> (it, e) \<in> set ns \<Longrightarrow> filter (\<lambda>n. fst n = it) ns = [(it, e)]"
proof (induction ns)
  case Nil
  then show ?case by simp
next
  case (Cons n ns)
  show ?case
  proof (cases "fst n = it")
    case True
    with Cons.prems have "n = (it, e)"
      by (auto simp: image_iff)
    moreover from Cons.prems True have "filter (\<lambda>m. fst m = it) ns = []"
      by (auto simp: filter_empty_conv image_iff)
    ultimately show ?thesis by simp
  next
    case False
    with Cons show ?thesis by auto
  qed
qed

lemma splice_end_eq:
  "distinct (map fst ns) \<Longrightarrow> (it, e) \<in> set ns \<Longrightarrow> splice_end it ns = list_erase it ns @ [(it, e)]"
  by (simp add: splice_end_def list_erase_def filter_id_single)

lemma set_list_erase: "set (list_erase it ns) = {n \<in> set ns. fst n \<noteq> it}"
  by (simp add: list_erase_def)

lemma distinct_list_erase: "distinct (map fst ns) \<Longrightarrow> distinct (map fst (list_erase it ns))"
  by (simp add: list_erase_def distinct_map_filter)

lemma length_list_erase:
  "distinct (map fst ns) \<Longrightarrow> (it, e) \<in> set ns \<Longrightarrow> Suc (length (list_erase it ns)) = length ns"
proof -
  assume d: "distinct (map fst ns)" and m: "(it, e) \<in> set ns"
  have "length (filter (\<lambda>n. fst n \<noteq> it) ns) + length (filter (\<lambda>n. fst n = it) ns) = length ns"
    using sum_length_filter_compl [of "\<lambda>n. fst n = it" ns] by simp
  with filter_id_single [OF d m] show ?thesis by (simp add: list_erase_def)
qed

lemma new_node_fresh: "n \<in> set ns \<Longrightarrow> fst n < new_node ns"
  by (induction ns) auto

lemma assign_erase_append:
  "assign it v t (list_erase it ns @ [(it, e)]) = list_erase it ns @ [(it, e\<lparr>val := v, expires_at := t\<rparr>)]"
  by (simp add: assign_def list_erase_def) (induction ns; simp)

subsection \<open>The length of the list as an int\<close>

lemma int_less_2p31: "n < 2 ^ 31 \<longleftrightarrow> int n < 2 ^ 31"
  by (metis of_nat_less_iff of_nat_numeral of_nat_power)

lemma sint_static_cast_int: "n < 2 ^ 31 \<Longrightarrow> sint (static_cast_int n) = int n"
proof -
  assume "n < 2 ^ 31"
  then have b: "int n < 2 ^ 31" by (simp only: int_less_2p31)
  have "- (2 ^ 31) \<le> int n" by (rule order_trans [of _ 0]) simp_all
  then have "signed_take_bit 31 (int n) = int n"
    using b by (rule signed_take_bit_int_eq_self)
  then show ?thesis
    unfolding static_cast_int_def by (simp only: signed_of_nat) simp
qed

lemma max_size_bound: "max 1 (sint (m :: 32 word)) < 2 ^ 31"
  using sint_lt [of m] by simp

lemma cache_inv_length: "cache_inv s \<Longrightarrow> length (lru s) < 2 ^ 31"
proof -
  assume "cache_inv s"
  then have "int (length (lru s)) \<le> max 1 (sint (max_size (options s)))"
    by (simp add: cache_inv_def)
  with max_size_bound [of "max_size (options s)"] have "int (length (lru s)) < 2 ^ 31"
    by linarith
  then show ?thesis by (simp only: int_less_2p31)
qed

subsection \<open>The invariant\<close>

lemma cache_inv_new: "cache_inv (MemoryCache_new opts)"
  by (simp add: cache_inv_def MemoryCache_new_def)

lemma cache_inv_lookup:
  assumes "cache_inv s" and "cache s k = Some it"
  shows "\<exists>e. (it, e) \<in> set (lru s) \<and> key e = k \<and> deref (lru s) it = Some e"
proof -
  from assms have "k \<in> (\<lambda>n. key (snd n)) ` set (lru s)"
    by (auto simp: cache_inv_def)
  then obtain n where n: "n \<in> set (lru s)" "key (snd n) = k" by auto
  with assms have "fst n = it" by (auto simp: cache_inv_def)
  with n have "(it, snd n) \<in> set (lru s)" by (cases n) auto
  moreover from assms have "distinct (map fst (lru s))" by (simp add: cache_inv_def)
  ultimately show ?thesis using n by (auto simp: deref_Some_iff)
qed

lemma cache_inv_key_of_node:
  "cache_inv s \<Longrightarrow> (it, e) \<in> set (lru s) \<Longrightarrow> cache s (key e) = Some it"
  by (auto simp: cache_inv_def)

lemma cache_inv_same_key:
  assumes "cache_inv s" "n \<in> set (lru s)" "m \<in> set (lru s)" "key (snd n) = key (snd m)"
  shows "n = m"
proof -
  from assms(1,2) have "cache s (key (snd n)) = Some (fst n)" by (simp add: cache_inv_def)
  moreover from assms(1,3) have "cache s (key (snd m)) = Some (fst m)" by (simp add: cache_inv_def)
  ultimately have eq: "fst n = fst m" using assms(4) by simp
  from assms(1) have "inj_on fst (set (lru s))" by (simp add: cache_inv_def distinct_map)
  then show ?thesis using eq assms(2,3) by (rule inj_onD)
qed

lemma cache_inv_distinct_keys: "cache_inv s \<Longrightarrow> distinct (map (\<lambda>n. key (snd n)) (lru s))"
proof -
  assume inv: "cache_inv s"
  then have d: "distinct (lru s)" by (simp add: cache_inv_def distinct_map)
  have "inj_on (\<lambda>n. key (snd n)) (set (lru s))"
    by (rule inj_onI) (rule cache_inv_same_key [OF inv])
  with d show ?thesis by (simp add: distinct_map)
qed

lemma node_unique:
  "distinct (map fst ns) \<Longrightarrow> (it, e) \<in> set ns \<Longrightarrow> n \<in> set ns \<Longrightarrow> fst n = it \<Longrightarrow> n = (it, e)"
proof -
  assume "distinct (map fst ns)" "(it, e) \<in> set ns" "n \<in> set ns" "fst n = it"
  then have "inj_on fst (set ns)" "fst n = fst (it, e)" by (simp_all add: distinct_map)
  then show ?thesis using \<open>n \<in> set ns\<close> \<open>(it, e) \<in> set ns\<close> by (rule inj_onD)
qed

lemma cache_inv_move:
  assumes inv: "cache_inv s" and m: "(it, e) \<in> set (lru s)" and k: "key e' = key e"
  shows "cache_inv (s\<lparr>lru := list_erase it (lru s) @ [(it, e')]\<rparr>)"
proof -
  from inv have d: "distinct (map fst (lru s))" by (simp add: cache_inv_def)
  have 1: "distinct (map fst (list_erase it (lru s) @ [(it, e')]))"
    using d by (auto simp: distinct_list_erase set_list_erase)
  have 2: "\<forall>n \<in> set (list_erase it (lru s) @ [(it, e')]). cache s (key (snd n)) = Some (fst n)"
    using inv m k by (auto simp: set_list_erase cache_inv_def)
  have 3: "dom (cache s) \<subseteq> (\<lambda>n. key (snd n)) ` set (list_erase it (lru s) @ [(it, e')])"
  proof
    fix x assume "x \<in> dom (cache s)"
    with inv obtain n where n: "n \<in> set (lru s)" "key (snd n) = x"
      by (auto simp: cache_inv_def)
    show "x \<in> (\<lambda>n. key (snd n)) ` set (list_erase it (lru s) @ [(it, e')])"
    proof (cases "fst n = it")
      case True
      with d m n have "n = (it, e)" by (simp add: node_unique)
      with n k show ?thesis by simp
    next
      case False
      with n have "n \<in> set (list_erase it (lru s))" by (simp add: set_list_erase)
      with n show ?thesis by force
    qed
  qed
  have 4: "length (list_erase it (lru s) @ [(it, e')]) = length (lru s)"
    using length_list_erase [OF d m] by simp
  from inv have "int (length (lru s)) \<le> max 1 (sint (max_size (options s)))"
    by (simp add: cache_inv_def)
  with 1 2 3 4 show ?thesis
    unfolding cache_inv_def by simp
qed

lemma cache_inv_erase:
  assumes inv: "cache_inv s" and c: "cache s k = Some it"
  shows "cache_inv (s\<lparr>lru := list_erase it (lru s), cache := (cache s)(k := None)\<rparr>)"
proof -
  from inv have d: "distinct (map fst (lru s))" by (simp add: cache_inv_def)
  from cache_inv_lookup [OF inv c] obtain e where e: "(it, e) \<in> set (lru s)" "key e = k"
    by blast
  have 2: "\<forall>n \<in> set (list_erase it (lru s)). ((cache s)(k := None)) (key (snd n)) = Some (fst n)"
  proof
    fix n assume "n \<in> set (list_erase it (lru s))"
    then have n: "n \<in> set (lru s)" "fst n \<noteq> it" by (simp_all add: set_list_erase)
    with inv have "cache s (key (snd n)) = Some (fst n)" by (simp add: cache_inv_def)
    with n c show "((cache s)(k := None)) (key (snd n)) = Some (fst n)" by auto
  qed
  have 3: "dom ((cache s)(k := None)) \<subseteq> (\<lambda>n. key (snd n)) ` set (list_erase it (lru s))"
  proof
    fix x assume "x \<in> dom ((cache s)(k := None))"
    then have x: "x \<noteq> k" "x \<in> dom (cache s)" by (auto split: if_splits)
    with inv obtain n where n: "n \<in> set (lru s)" "key (snd n) = x"
      by (auto simp: cache_inv_def)
    have "fst n \<noteq> it"
    proof
      assume "fst n = it"
      with d e n have "n = (it, e)" by (simp add: node_unique)
      with n e x show False by simp
    qed
    with n have "n \<in> set (list_erase it (lru s))" by (simp add: set_list_erase)
    with n show "x \<in> (\<lambda>n. key (snd n)) ` set (list_erase it (lru s))" by force
  qed
  have 4: "length (list_erase it (lru s)) \<le> length (lru s)"
    by (simp add: list_erase_def)
  from inv have "int (length (lru s)) \<le> max 1 (sint (max_size (options s)))"
    by (simp add: cache_inv_def)
  with 4 have 5: "int (length (list_erase it (lru s))) \<le> max 1 (sint (max_size (options s)))"
    by linarith
  from d 2 3 5 show ?thesis
    unfolding cache_inv_def by (simp add: distinct_list_erase)
qed

lemma cache_inv_evict_step:
  assumes inv: "cache_inv s" and l: "lru s = oldest # rest"
  shows "cache_inv (s\<lparr>cache := (cache s)(key (snd oldest) := None), lru := rest\<rparr>)"
proof -
  from inv l have c: "cache s (key (snd oldest)) = Some (fst oldest)"
    by (simp add: cache_inv_def)
  from inv l have "distinct (map fst (oldest # rest))" by (simp add: cache_inv_def)
  then have "\<forall>n \<in> set rest. fst n \<noteq> fst oldest" by (auto simp: image_iff)
  then have "list_erase (fst oldest) (lru s) = rest"
    using l by (simp add: list_erase_def filter_id_conv)
  with cache_inv_erase [OF inv c] show ?thesis
    by (simp add: l cache_inv_def)
qed

subsection \<open>Eviction\<close>

lemma cache_inv_cast:
  "cache_inv s \<Longrightarrow> sint (static_cast_int (length (lru s))) = int (length (lru s))"
  by (rule sint_static_cast_int) (rule cache_inv_length)

lemma evict_if_needed_frame:
  "options (evict_if_needed s) = options s \<and> hits (evict_if_needed s) = hits s \<and>
   misses (evict_if_needed s) = misses s"
proof (induction s rule: evict_if_needed.induct)
  case (1 s)
  show ?case
  proof (cases "sint (max_size (options s)) \<le> sint (static_cast_int (length (lru s)))")
    case False
    then show ?thesis by (subst (1 2 3) evict_if_needed.simps) simp
  next
    case True
    show ?thesis
    proof (cases "lru s")
      case Nil
      with True show ?thesis by (subst (1 2 3) evict_if_needed.simps) simp
    next
      case (Cons oldest rest)
      with True "1.IH" [OF True Cons] show ?thesis
        by (subst (1 2 3) evict_if_needed.simps) simp
    qed
  qed
qed

lemma evict_if_needed_inv: "cache_inv s \<Longrightarrow> cache_inv (evict_if_needed s)"
proof (induction s rule: evict_if_needed.induct)
  case (1 s)
  show ?case
  proof (cases "sint (max_size (options s)) \<le> sint (static_cast_int (length (lru s)))")
    case False
    with "1.prems" show ?thesis by (subst evict_if_needed.simps) simp
  next
    case True
    show ?thesis
    proof (cases "lru s")
      case Nil
      with True "1.prems" show ?thesis by (subst evict_if_needed.simps) simp
    next
      case (Cons oldest rest)
      from "1.prems" Cons have "cache_inv (s\<lparr>cache := (cache s)(key (snd oldest) := None), lru := rest\<rparr>)"
        by (rule cache_inv_evict_step)
      with True Cons "1.IH" [OF True Cons] show ?thesis
        by (subst evict_if_needed.simps) simp
    qed
  qed
qed

lemma evict_if_needed_room:
  "cache_inv s \<Longrightarrow>
     lru (evict_if_needed s) = [] \<or>
     int (length (lru (evict_if_needed s))) < sint (max_size (options s))"
proof (induction s rule: evict_if_needed.induct)
  case (1 s)
  from "1.prems" have len: "sint (static_cast_int (length (lru s))) = int (length (lru s))"
    by (rule cache_inv_cast)
  show ?case
  proof (cases "sint (max_size (options s)) \<le> sint (static_cast_int (length (lru s)))")
    case False
    with len show ?thesis by (subst (1 2) evict_if_needed.simps) simp
  next
    case True
    show ?thesis
    proof (cases "lru s")
      case Nil
      with True show ?thesis by (subst (1 2) evict_if_needed.simps) simp
    next
      case (Cons oldest rest)
      from "1.prems" Cons have "cache_inv (s\<lparr>cache := (cache s)(key (snd oldest) := None), lru := rest\<rparr>)"
        by (rule cache_inv_evict_step)
      with True Cons "1.IH" [OF True Cons] show ?thesis
        by (subst (1 2) evict_if_needed.simps) simp
    qed
  qed
qed

lemma evict_if_needed_absent: "cache s k = None \<Longrightarrow> cache (evict_if_needed s) k = None"
proof (induction s rule: evict_if_needed.induct)
  case (1 s)
  show ?case
  proof (cases "sint (max_size (options s)) \<le> sint (static_cast_int (length (lru s)))")
    case False
    with "1.prems" show ?thesis by (subst evict_if_needed.simps) simp
  next
    case True
    show ?thesis
    proof (cases "lru s")
      case Nil
      with True "1.prems" show ?thesis by (subst evict_if_needed.simps) simp
    next
      case (Cons oldest rest)
      with True "1.prems" "1.IH" [OF True Cons] show ?thesis
        by (subst evict_if_needed.simps) simp
    qed
  qed
qed

lemma evict_if_needed_room_left:
  assumes "cache_inv s" and "int (length (lru s)) < sint (max_size (options s))"
  shows "evict_if_needed s = s"
proof -
  from assms(1) have "sint (static_cast_int (length (lru s))) = int (length (lru s))"
    by (rule cache_inv_cast)
  with assms(2) show ?thesis by (subst evict_if_needed.simps) simp
qed

lemma evict_if_needed_full:
  assumes inv: "cache_inv s" and l: "lru s = oldest # rest"
    and full: "int (length (lru s)) = sint (max_size (options s))"
  shows "evict_if_needed s = s\<lparr>cache := (cache s)(key (snd oldest) := None), lru := rest\<rparr>"
proof -
  let ?s' = "s\<lparr>cache := (cache s)(key (snd oldest) := None), lru := rest\<rparr>"
  from inv have "sint (static_cast_int (length (lru s))) = int (length (lru s))"
    by (rule cache_inv_cast)
  with full l have "evict_if_needed s = evict_if_needed ?s'"
    by (subst evict_if_needed.simps) simp
  moreover have "cache_inv ?s'" using inv l by (rule cache_inv_evict_step)
  moreover have "int (length (lru ?s')) < sint (max_size (options ?s'))"
    using full l by simp
  ultimately show ?thesis by (simp add: evict_if_needed_room_left)
qed

lemma evict_if_needed_degenerate:
  "cache_inv s \<Longrightarrow> sint (max_size (options s)) \<le> 0 \<Longrightarrow>
     lru (evict_if_needed s) = [] \<and> cache (evict_if_needed s) = Map.empty"
proof -
  assume inv: "cache_inv s" and m: "sint (max_size (options s)) \<le> 0"
  from inv have inv': "cache_inv (evict_if_needed s)" by (rule evict_if_needed_inv)
  from evict_if_needed_room [OF inv] m have e: "lru (evict_if_needed s) = []" by auto
  with inv' have "dom (cache (evict_if_needed s)) = {}" by (simp add: cache_inv_def)
  with e show ?thesis by simp
qed

subsection \<open>Storing an entry\<close>

lemma set_entry_existing:
  assumes inv: "cache_inv s" and c: "cache s k = Some it"
  shows "\<exists>e. (it, e) \<in> set (lru s) \<and> key e = k \<and>
             set_entry now k v ttl s =
               Inr (s\<lparr>lru := list_erase it (lru s) @
                                [(it, e\<lparr>val := v, expires_at := deadline (options s) now ttl\<rparr>)]\<rparr>)"
proof -
  from cache_inv_lookup [OF inv c] obtain e
    where e: "(it, e) \<in> set (lru s)" "key e = k" "deref (lru s) it = Some e" by blast
  from inv have d: "distinct (map fst (lru s))" by (simp add: cache_inv_def)
  have "set_entry now k v ttl s =
          Inr (s\<lparr>lru := assign it v (deadline (options s) now ttl) (splice_end it (lru s))\<rparr>)"
    using c e(3) by (simp add: set_entry_def deadline_def Let_def)
  also have "assign it v (deadline (options s) now ttl) (splice_end it (lru s)) =
               list_erase it (lru s) @ [(it, e\<lparr>val := v, expires_at := deadline (options s) now ttl\<rparr>)]"
    by (simp only: splice_end_eq [OF d e(1)] assign_erase_append)
  finally show ?thesis using e by blast
qed

lemma set_entry_new:
  assumes "cache s k = None"
  shows "set_entry now k v ttl s =
           Inr ((evict_if_needed s)
                 \<lparr>lru := lru (evict_if_needed s) @
                           [(new_node (lru (evict_if_needed s)),
                             \<lparr>key = k, val = v, expires_at = deadline (options s) now ttl\<rparr>)],
                  cache := (cache (evict_if_needed s))(k \<mapsto> new_node (lru (evict_if_needed s)))\<rparr>)"
  using assms by (simp add: set_entry_def deadline_def Let_def)

lemma cache_inv_push:
  assumes inv: "cache_inv s" and c: "cache s k = None" and e: "key e = k"
    and room: "lru s = [] \<or> int (length (lru s)) < sint (max_size (options s))"
  shows "cache_inv (s\<lparr>lru := lru s @ [(new_node (lru s), e)],
                        cache := (cache s)(k \<mapsto> new_node (lru s))\<rparr>)"
proof -
  from inv have d: "distinct (map fst (lru s))" by (simp add: cache_inv_def)
  have "new_node (lru s) \<notin> fst ` set (lru s)"
    using new_node_fresh [of _ "lru s"] by fastforce
  with d have 1: "distinct (map fst (lru s @ [(new_node (lru s), e)]))" by simp
  have 2: "\<forall>n \<in> set (lru s @ [(new_node (lru s), e)]).
             ((cache s)(k \<mapsto> new_node (lru s))) (key (snd n)) = Some (fst n)"
  proof
    fix n assume n: "n \<in> set (lru s @ [(new_node (lru s), e)])"
    show "((cache s)(k \<mapsto> new_node (lru s))) (key (snd n)) = Some (fst n)"
    proof (cases "n \<in> set (lru s)")
      case True
      with inv have "cache s (key (snd n)) = Some (fst n)" by (simp add: cache_inv_def)
      with c show ?thesis by auto
    next
      case False
      with n e show ?thesis by simp
    qed
  qed
  from inv have "dom (cache s) \<subseteq> (\<lambda>n. key (snd n)) ` set (lru s)" by (simp add: cache_inv_def)
  then have 3: "dom ((cache s)(k \<mapsto> new_node (lru s)))
                  \<subseteq> (\<lambda>n. key (snd n)) ` set (lru s @ [(new_node (lru s), e)])"
    using e by auto
  have 4: "int (length (lru s @ [(new_node (lru s), e)])) \<le> max 1 (sint (max_size (options s)))"
    using room by auto
  from 1 2 3 4 show ?thesis unfolding cache_inv_def by simp
qed

lemma set_entry_inv:
  assumes inv: "cache_inv s"
  shows "\<exists>s'. set_entry now k v ttl s = Inr s' \<and> cache_inv s' \<and> options s' = options s \<and>
               hits s' = hits s \<and> misses s' = misses s"
proof (cases "cache s k")
  case None
  let ?s1 = "evict_if_needed s"
  have "cache_inv ?s1" using inv by (rule evict_if_needed_inv)
  moreover have "cache ?s1 k = None" using None by (rule evict_if_needed_absent)
  moreover have "lru ?s1 = [] \<or> int (length (lru ?s1)) < sint (max_size (options ?s1))"
    using evict_if_needed_room [OF inv] by (simp add: evict_if_needed_frame)
  ultimately have "cache_inv (?s1\<lparr>lru := lru ?s1 @ [(new_node (lru ?s1),
                       \<lparr>key = k, val = v, expires_at = deadline (options s) now ttl\<rparr>)],
                     cache := (cache ?s1)(k \<mapsto> new_node (lru ?s1))\<rparr>)"
    by (intro cache_inv_push) simp_all
  then show ?thesis
    by (simp add: set_entry_new [OF None] evict_if_needed_frame)
next
  case (Some it)
  from set_entry_existing [OF inv Some, of now v ttl] obtain e
    where e: "(it, e) \<in> set (lru s)" "key e = k"
      "set_entry now k v ttl s =
         Inr (s\<lparr>lru := list_erase it (lru s) @
                          [(it, e\<lparr>val := v, expires_at := deadline (options s) now ttl\<rparr>)]\<rparr>)"
    by blast
  have "cache_inv (s\<lparr>lru := list_erase it (lru s) @
                          [(it, e\<lparr>val := v, expires_at := deadline (options s) now ttl\<rparr>)]\<rparr>)"
    using inv e(1) by (rule cache_inv_move) simp
  with e(3) show ?thesis by simp
qed

subsection \<open>Lookup, get, remove and exists\<close>

lemma option_eqI: "(\<And>x. a = Some x \<longleftrightarrow> b = Some x) \<Longrightarrow> a = b"
  by (cases a; cases b) auto

lemma find_entry_iff:
  assumes inv: "cache_inv s"
  shows "find_entry s k = Some e \<longleftrightarrow> (\<exists>it. (it, e) \<in> set (lru s)) \<and> key e = k"
proof
  assume f: "find_entry s k = Some e"
  then obtain it where it: "cache s k = Some it" "deref (lru s) it = Some e"
    by (auto simp: find_entry_def split: option.splits)
  from cache_inv_lookup [OF inv it(1)] it(2) show "(\<exists>it. (it, e) \<in> set (lru s)) \<and> key e = k"
    by auto
next
  assume "(\<exists>it. (it, e) \<in> set (lru s)) \<and> key e = k"
  then obtain it where it: "(it, e) \<in> set (lru s)" "key e = k" by blast
  from inv have d: "distinct (map fst (lru s))" by (simp add: cache_inv_def)
  from cache_inv_key_of_node [OF inv it(1)] it(2) have "cache s k = Some it" by simp
  moreover from d it(1) have "deref (lru s) it = Some e" by (simp add: deref_Some_iff)
  ultimately show "find_entry s k = Some e" by (simp add: find_entry_def)
qed

lemma find_entry_cong:
  assumes "cache_inv s" "cache_inv s'" "snd ` set (lru s') = snd ` set (lru s)"
  shows "find_entry s' k = find_entry s k"
proof -
  have "\<And>e. find_entry s' k = Some e \<longleftrightarrow> find_entry s k = Some e"
  proof -
    fix e
    have "(\<exists>it. (it, e) \<in> set (lru s')) \<longleftrightarrow> e \<in> snd ` set (lru s')" by force
    also have "\<dots> \<longleftrightarrow> e \<in> snd ` set (lru s)" by (simp only: assms(3))
    also have "\<dots> \<longleftrightarrow> (\<exists>it. (it, e) \<in> set (lru s))" by force
    finally show "find_entry s' k = Some e \<longleftrightarrow> find_entry s k = Some e"
      by (simp add: find_entry_iff assms(1,2))
  qed
  then show ?thesis by (rule option_eqI)
qed

lemma get_absent:
  "cache s k = None \<Longrightarrow> get now k s = Inr (None, s\<lparr>misses := misses s + 1\<rparr>)"
  by (simp add: get_def)

lemma get_found:
  assumes inv: "cache_inv s" and c: "cache s k = Some it"
  shows "\<exists>e. (it, e) \<in> set (lru s) \<and> key e = k \<and> find_entry s k = Some e \<and>
           get now k s =
             (if is_expired now e
              then Inr (None, s\<lparr>lru := list_erase it (lru s), cache := (cache s)(k := None),
                                misses := misses s + 1\<rparr>)
              else Inr (Some (val e), s\<lparr>lru := list_erase it (lru s) @ [(it, e)],
                                        hits := hits s + 1\<rparr>))"
proof -
  from cache_inv_lookup [OF inv c] obtain e
    where e: "(it, e) \<in> set (lru s)" "key e = k" "deref (lru s) it = Some e" by blast
  from inv have d: "distinct (map fst (lru s))" by (simp add: cache_inv_def)
  have "find_entry s k = Some e" using c e(3) by (simp add: find_entry_def)
  moreover have "get now k s =
             (if is_expired now e
              then Inr (None, s\<lparr>lru := list_erase it (lru s), cache := (cache s)(k := None),
                                misses := misses s + 1\<rparr>)
              else Inr (Some (val e), s\<lparr>lru := list_erase it (lru s) @ [(it, e)],
                                        hits := hits s + 1\<rparr>))"
    using c e(3) by (simp add: get_def splice_end_eq [OF d e(1)])
  ultimately show ?thesis using e(1,2) by blast
qed

lemma cache_inv_counters:
  "cache_inv (s\<lparr>hits := h\<rparr>) = cache_inv s" "cache_inv (s\<lparr>misses := m\<rparr>) = cache_inv s"
  by (simp_all add: cache_inv_def)

lemma find_entry_counters:
  "find_entry (s\<lparr>hits := h\<rparr>) = find_entry s" "find_entry (s\<lparr>misses := m\<rparr>) = find_entry s"
  by (simp_all add: find_entry_def fun_eq_iff split: option.splits)

lemma find_entry_erase:
  assumes inv: "cache_inv s" and c: "cache s k = Some it"
  shows "find_entry (s\<lparr>lru := list_erase it (lru s), cache := (cache s)(k := None)\<rparr>) k' =
           (if k' = k then None else find_entry s k')"
proof -
  let ?s' = "s\<lparr>lru := list_erase it (lru s), cache := (cache s)(k := None)\<rparr>"
  have inv': "cache_inv ?s'" using inv c by (rule cache_inv_erase)
  from inv have d: "distinct (map fst (lru s))" by (simp add: cache_inv_def)
  from cache_inv_lookup [OF inv c] obtain e where e: "(it, e) \<in> set (lru s)" "key e = k"
    by blast
  show ?thesis
  proof (cases "k' = k")
    case True
    then show ?thesis by (simp add: find_entry_def)
  next
    case False
    have "\<And>x. find_entry ?s' k' = Some x \<longleftrightarrow> find_entry s k' = Some x"
    proof -
      fix x
      have "(\<exists>j. (j, x) \<in> set (list_erase it (lru s))) \<and> key x = k' \<longleftrightarrow>
            (\<exists>j. (j, x) \<in> set (lru s)) \<and> key x = k'"
      proof (intro iffI conjI)
        assume a: "(\<exists>j. (j, x) \<in> set (lru s)) \<and> key x = k'"
        then obtain j where j: "(j, x) \<in> set (lru s)" by blast
        have "j \<noteq> it"
        proof
          assume "j = it"
          with node_unique [OF d e(1) j] have "x = e" by simp
          with a e False show False by simp
        qed
        with j show "\<exists>j. (j, x) \<in> set (list_erase it (lru s))"
          by (auto simp: set_list_erase)
      qed (auto simp: set_list_erase)
      then show "find_entry ?s' k' = Some x \<longleftrightarrow> find_entry s k' = Some x"
        by (simp add: find_entry_iff [OF inv] find_entry_iff [OF inv'])
    qed
    then have "find_entry ?s' k' = find_entry s k'" by (rule option_eqI)
    with False show ?thesis by simp
  qed
qed

lemma find_entry_move:
  assumes inv: "cache_inv s" and m: "(it, e) \<in> set (lru s)"
  shows "find_entry (s\<lparr>lru := list_erase it (lru s) @ [(it, e)]\<rparr>) k' = find_entry s k'"
proof -
  from inv have d: "distinct (map fst (lru s))" by (simp add: cache_inv_def)
  have "cache_inv (s\<lparr>lru := list_erase it (lru s) @ [(it, e)]\<rparr>)"
    using inv m by (rule cache_inv_move) simp
  moreover have "set (list_erase it (lru s) @ [(it, e)]) = set (lru s)"
  proof (intro set_eqI iffI)
    fix n assume "n \<in> set (list_erase it (lru s) @ [(it, e)])"
    with m show "n \<in> set (lru s)" by (auto simp: set_list_erase)
  next
    fix n assume n: "n \<in> set (lru s)"
    show "n \<in> set (list_erase it (lru s) @ [(it, e)])"
    proof (cases "fst n = it")
      case True
      with node_unique [OF d m n] show ?thesis by simp
    next
      case False
      with n show ?thesis by (simp add: set_list_erase)
    qed
  qed
  ultimately show ?thesis using inv by (intro find_entry_cong) simp_all
qed

lemma get_spec:
  assumes inv: "cache_inv s"
  shows "\<exists>s'. get now k s = Inr (live_value now s k, s') \<and> cache_inv s' \<and>
              options s' = options s \<and> (\<forall>k'. live_value now s' k' = live_value now s k')"
proof (cases "cache s k")
  case None
  then have "find_entry s k = None" by (simp add: find_entry_def)
  then show ?thesis using inv
    by (simp add: get_absent [OF None] live_value_def cache_inv_counters find_entry_counters)
next
  case (Some it)
  from get_found [OF inv Some, of now] obtain e
    where e: "(it, e) \<in> set (lru s)" "key e = k" "find_entry s k = Some e"
      and g: "get now k s =
             (if is_expired now e
              then Inr (None, s\<lparr>lru := list_erase it (lru s), cache := (cache s)(k := None),
                                misses := misses s + 1\<rparr>)
              else Inr (Some (val e), s\<lparr>lru := list_erase it (lru s) @ [(it, e)],
                                        hits := hits s + 1\<rparr>))"
    by blast
  show ?thesis
  proof (cases "is_expired now e")
    case True
    let ?s' = "s\<lparr>lru := list_erase it (lru s), cache := (cache s)(k := None)\<rparr>"
    have "cache_inv ?s'" using inv Some by (rule cache_inv_erase)
    moreover have "\<forall>k'. live_value now ?s' k' = live_value now s k'"
      using True e(3) by (simp add: live_value_def find_entry_erase [OF inv Some])
    ultimately show ?thesis using True g e(3)
      by (simp add: live_value_def cache_inv_counters find_entry_counters)
  next
    case False
    let ?s' = "s\<lparr>lru := list_erase it (lru s) @ [(it, e)]\<rparr>"
    have "cache_inv ?s'" using inv e(1) by (rule cache_inv_move) simp
    moreover have "\<forall>k'. live_value now ?s' k' = live_value now s k'"
      by (simp add: live_value_def find_entry_move [OF inv e(1)])
    ultimately show ?thesis using False g e(3)
      by (simp add: live_value_def cache_inv_counters find_entry_counters)
  qed
qed

lemma get_find_entry:
  assumes inv: "cache_inv s"
  shows "\<exists>s'. get now k s = Inr (live_value now s k, s') \<and> cache_inv s' \<and>
              (\<forall>j. find_entry s' j =
                     (if j = k \<and> live_value now s k = None then None else find_entry s j))"
proof (cases "cache s k")
  case None
  then have "find_entry s k = None" by (simp add: find_entry_def)
  then show ?thesis using inv
    by (simp add: get_absent [OF None] live_value_def cache_inv_counters find_entry_counters)
next
  case (Some it)
  from get_found [OF inv Some, of now] obtain e
    where e: "(it, e) \<in> set (lru s)" "key e = k" "find_entry s k = Some e"
      and g: "get now k s =
             (if is_expired now e
              then Inr (None, s\<lparr>lru := list_erase it (lru s), cache := (cache s)(k := None),
                                misses := misses s + 1\<rparr>)
              else Inr (Some (val e), s\<lparr>lru := list_erase it (lru s) @ [(it, e)],
                                        hits := hits s + 1\<rparr>))"
    by blast
  show ?thesis
  proof (cases "is_expired now e")
    case True
    let ?s' = "s\<lparr>lru := list_erase it (lru s), cache := (cache s)(k := None)\<rparr>"
    have "cache_inv ?s'" using inv Some by (rule cache_inv_erase)
    then show ?thesis using True g e(3)
      by (simp add: live_value_def cache_inv_counters find_entry_counters
          find_entry_erase [OF inv Some])
  next
    case False
    let ?s' = "s\<lparr>lru := list_erase it (lru s) @ [(it, e)]\<rparr>"
    have "cache_inv ?s'" using inv e(1) by (rule cache_inv_move) simp
    then show ?thesis using False g e(3)
      by (simp add: live_value_def cache_inv_counters find_entry_counters
          find_entry_move [OF inv e(1)])
  qed
qed

lemma remove_absent: "cache s k = None \<Longrightarrow> remove k s = Inr (False, s)"
  by (simp add: remove_def)

lemma remove_found:
  assumes inv: "cache_inv s" and c: "cache s k = Some it"
  shows "remove k s =
           Inr (True, s\<lparr>lru := list_erase it (lru s), cache := (cache s)(k := None)\<rparr>)"
proof -
  from cache_inv_lookup [OF inv c] obtain e where "deref (lru s) it = Some e" by blast
  with c show ?thesis by (simp add: remove_def)
qed

lemma exists_spec:
  assumes inv: "cache_inv s"
  shows "exists now k s = Inr (live_value now s k \<noteq> None)"
proof (cases "cache s k")
  case None
  then show ?thesis by (simp add: exists_def live_value_def find_entry_def)
next
  case (Some it)
  from cache_inv_lookup [OF inv Some] obtain e where "deref (lru s) it = Some e" by blast
  with Some show ?thesis by (simp add: exists_def live_value_def find_entry_def)
qed

lemma live_value_Some_iff:
  "live_value now s k = Some x \<longleftrightarrow>
     (\<exists>e. find_entry s k = Some e \<and> \<not> is_expired now e \<and> val e = x)"
  by (auto simp: live_value_def split: option.splits)

subsection \<open>The sweep, clear and runs of calls\<close>

lemma cleanup_loop_body_eq:
  "cleanup_loop_body now ns c =
     (\<lambda>k. if k \<in> (\<lambda>n. key (snd n)) ` {n \<in> set ns. is_expired now (snd n)} then None else c k,
      filter (\<lambda>n. \<not> is_expired now (snd n)) ns)"
proof (induction ns arbitrary: c)
  case Nil
  show ?case by simp
next
  case (Cons n ns)
  show ?case
  proof (cases "is_expired now (snd n)")
    case True
    have "{m. (m = n \<or> m \<in> set ns) \<and> is_expired now (snd m)} =
            insert n {m \<in> set ns. is_expired now (snd m)}"
      using True by blast
    with True show ?thesis by (simp add: Cons.IH fun_eq_iff)
  next
    case False
    have "{m. (m = n \<or> m \<in> set ns) \<and> is_expired now (snd m)} = {m \<in> set ns. is_expired now (snd m)}"
      using False by blast
    with False show ?thesis by (simp add: Cons.IH)
  qed
qed

lemma cleanup_expired_eq:
  "cleanup_expired now s =
     s\<lparr>cache := (\<lambda>k. if k \<in> (\<lambda>n. key (snd n)) ` {n \<in> set (lru s). is_expired now (snd n)}
                       then None else cache s k),
       lru := filter (\<lambda>n. \<not> is_expired now (snd n)) (lru s)\<rparr>"
  by (simp add: cleanup_expired_def cleanup_loop_body_eq)

lemma cleanup_expired_inv:
  assumes inv: "cache_inv s"
  shows "cache_inv (cleanup_expired now s)"
proof -
  let ?dead = "(\<lambda>n. key (snd n)) ` {n \<in> set (lru s). is_expired now (snd n)}"
  let ?c = "\<lambda>k. if k \<in> ?dead then None else cache s k"
  let ?ns = "filter (\<lambda>n. \<not> is_expired now (snd n)) (lru s)"
  from inv have 1: "distinct (map fst ?ns)" by (simp add: cache_inv_def distinct_map_filter)
  have 2: "\<forall>n \<in> set ?ns. ?c (key (snd n)) = Some (fst n)"
  proof
    fix n assume "n \<in> set ?ns"
    then have n: "n \<in> set (lru s)" "\<not> is_expired now (snd n)" by simp_all
    have "key (snd n) \<notin> ?dead"
    proof
      assume "key (snd n) \<in> ?dead"
      then obtain m where m: "m \<in> set (lru s)" "is_expired now (snd m)" "key (snd n) = key (snd m)"
        by blast
      from cache_inv_same_key [OF inv n(1) m(1) m(3)] n(2) m(2) show False by simp
    qed
    moreover from inv n(1) have "cache s (key (snd n)) = Some (fst n)" by (simp add: cache_inv_def)
    ultimately show "?c (key (snd n)) = Some (fst n)" by simp
  qed
  have 3: "dom ?c \<subseteq> (\<lambda>n. key (snd n)) ` set ?ns"
  proof
    fix x assume "x \<in> dom ?c"
    then obtain y where y: "?c x = Some y" by blast
    have x: "x \<notin> ?dead"
    proof
      assume "x \<in> ?dead"
      then have "?c x = None" by (simp only: if_True)
      with y show False by simp
    qed
    then have "?c x = cache s x" by (simp only: if_False)
    with y have "x \<in> dom (cache s)" by auto
    with inv obtain n where n: "n \<in> set (lru s)" "key (snd n) = x" by (auto simp: cache_inv_def)
    have "\<not> is_expired now (snd n)"
    proof
      assume "is_expired now (snd n)"
      with n have "n \<in> {n \<in> set (lru s). is_expired now (snd n)}" by simp
      then have "key (snd n) \<in> ?dead" by (rule imageI)
      with n x show False by simp
    qed
    with n show "x \<in> (\<lambda>n. key (snd n)) ` set ?ns" by force
  qed
  have "length ?ns \<le> length (lru s)" by simp
  moreover from inv have "int (length (lru s)) \<le> max 1 (sint (max_size (options s)))"
    by (simp add: cache_inv_def)
  ultimately have 4: "int (length ?ns) \<le> max 1 (sint (max_size (options s)))" by linarith
  from 1 2 3 4 show ?thesis
    unfolding cache_inv_def by (simp add: cleanup_expired_eq)
qed

lemma clear_inv: "cache_inv (clear s)"
  by (simp add: cache_inv_def clear_def)

lemma move_assign_inv: "cache_inv other \<Longrightarrow> cache_inv (move_assign s other)"
  by (simp add: cache_inv_def move_assign_def close_def clear_def)

lemma remove_inv:
  assumes inv: "cache_inv s"
  shows "\<exists>r s'. remove k s = Inr (r, s') \<and> cache_inv s' \<and> options s' = options s \<and>
                hits s' = hits s \<and> misses s' = misses s"
proof (cases "cache s k")
  case None
  with inv show ?thesis by (auto simp: remove_absent)
next
  case (Some it)
  with cache_inv_erase [OF inv Some] show ?thesis by (auto simp: remove_found [OF inv Some])
qed

lemma step_inv:
  assumes inv: "cache_inv s"
  shows "\<exists>s'. step c s = Inr s' \<and> cache_inv s' \<and> options s' = options s"
proof (cases c)
  case (Get now k)
  with get_spec [OF inv, of now k] show ?thesis by auto
next
  case (Set now k v ttl)
  with set_entry_inv [OF inv, of now k v ttl] show ?thesis by auto
next
  case (Remove k)
  with remove_inv [OF inv, of k] show ?thesis by auto
next
  case (Exists now k)
  with inv show ?thesis by (simp add: exists_spec)
next
  case Clear
  then show ?thesis by (simp add: clear_inv) (simp add: clear_def)
next
  case Close
  then show ?thesis by (simp add: clear_inv close_def) (simp add: clear_def)
next
  case (Stats now)
  with inv show ?thesis by simp
next
  case (CleanupExpired now)
  with cleanup_expired_inv [OF inv] show ?thesis by (simp add: cleanup_expired_eq)
qed

lemma run_inv:
  "cache_inv s \<Longrightarrow> \<exists>s'. run cs s = Inr s' \<and> cache_inv s' \<and> options s' = options s"
proof (induction cs arbitrary: s)
  case Nil
  then show ?case by simp
next
  case (Cons c cs)
  from step_inv [OF Cons.prems, of c] obtain s1
    where s1: "step c s = Inr s1" "cache_inv s1" "options s1 = options s" by blast
  from Cons.IH [OF s1(2)] s1 show ?case by auto
qed

lemma cache_inv_reachable:
  "run calls (MemoryCache_new opts) = Inr s \<Longrightarrow> cache_inv s"
  using run_inv [OF cache_inv_new, of calls opts] by auto

subsection \<open>The example states\<close>

lemma stale_state_reached:
  "run [Set 1 ''a'' 7 1] (MemoryCache_new example_options) = Inr stale_state"
  by (simp add: set_entry_def MemoryCache_new_def evict_if_needed.simps static_cast_int_def
      example_options_def stale_state_def stale_entry_def ticks_per_second_def)

lemma stale_state_inv: "cache_inv stale_state"
  by (simp add: cache_inv_def stale_state_def example_options_def stale_entry_def)

lemma stale_state_find: "find_entry stale_state ''a'' = Some stale_entry"
  by (simp add: find_entry_def stale_state_def deref_def)

lemma stale_entry_expired: "is_expired 2000000000 stale_entry"
  by (simp add: is_expired_def stale_entry_def)

subsection \<open>The bulk operations\<close>

lemma get_many_loop_spec:
  "cache_inv s \<Longrightarrow>
     \<exists>s'. get_many_loop keys result s =
             Inr (\<lambda>k. case found_at keys s k of None \<Rightarrow> result k | Some x \<Rightarrow> Some x, s') \<and>
          cache_inv s' \<and> run (map (\<lambda>(now, k). Get now k) keys) s = Inr s'"
proof (induction keys arbitrary: result s)
  case Nil
  then show ?case by (simp add: found_at_def)
next
  case (Cons p ks)
  obtain now k0 where p: "p = (now, k0)" by (cases p)
  from get_find_entry [OF Cons.prems, of now k0] obtain s1
    where g: "get now k0 s = Inr (live_value now s k0, s1)" and inv1: "cache_inv s1"
      and fe: "\<forall>j. find_entry s1 j =
                 (if j = k0 \<and> live_value now s k0 = None then None else find_entry s j)"
    by blast
  let ?r1 = "case live_value now s k0 of None \<Rightarrow> result | Some x \<Rightarrow> result(k0 \<mapsto> x)"
  from Cons.IH [OF inv1, of ?r1] obtain s'
    where l: "get_many_loop ks ?r1 s1 =
               Inr (\<lambda>k. case found_at ks s1 k of None \<Rightarrow> ?r1 k | Some x \<Rightarrow> Some x, s')"
      and inv': "cache_inv s'"
      and r: "run (map (\<lambda>(now, k). Get now k) ks) s1 = Inr s'" by blast
  have lv: "\<And>t j. live_value t s1 j =
              (if j = k0 \<and> live_value now s k0 = None then None else live_value t s j)"
    by (simp add: live_value_def fe)
  have fa: "\<And>k. found_at ks s1 k =
              (if k = k0 \<and> live_value now s k0 = None then None else found_at ks s k)"
    by (simp add: found_at_def lv split: option.splits)
  have "(\<lambda>k. case found_at ks s1 k of None \<Rightarrow> ?r1 k | Some x \<Rightarrow> Some x) =
        (\<lambda>k. case found_at (p # ks) s k of None \<Rightarrow> result k | Some x \<Rightarrow> Some x)"
  proof (rule ext)
    fix k
    show "(case found_at ks s1 k of None \<Rightarrow> ?r1 k | Some x \<Rightarrow> Some x) =
          (case found_at (p # ks) s k of None \<Rightarrow> result k | Some x \<Rightarrow> Some x)"
    proof (cases "k = k0")
      case False
      then have "found_at (p # ks) s k = found_at ks s k" "found_at ks s1 k = found_at ks s k"
        "?r1 k = result k"
        by (simp_all add: found_at_def p fa [unfolded found_at_def] split: option.splits)
      then show ?thesis by (simp only:)
    next
      case True
      show ?thesis
      proof (cases "live_value now s k0")
        case None
        then have "found_at (p # ks) s k0 = None" "found_at ks s1 k0 = None" "?r1 k0 = result k0"
          by (simp_all add: found_at_def p fa [unfolded found_at_def])
        then show ?thesis by (simp add: True)
      next
        case (Some x)
        then obtain e where e: "find_entry s k0 = Some e" "val e = x"
          by (auto simp: live_value_Some_iff)
        have same: "found_at ks s k0 = None \<or> found_at ks s k0 = Some x"
        proof (cases "found_at ks s k0")
          case None
          then show ?thesis by simp
        next
          case (Some y)
          then obtain t where "live_value t s k0 = Some y"
            by (auto simp: found_at_def split: option.splits)
          with e have "y = x" by (auto simp: live_value_Some_iff)
          with Some show ?thesis by simp
        qed
        from Some have 1: "found_at (p # ks) s k0 = Some x" "?r1 k0 = Some x"
          "found_at ks s1 k0 = found_at ks s k0"
          by (simp_all add: found_at_def p fa [unfolded found_at_def])
        from same show ?thesis unfolding True 1 by auto
      qed
    qed
  qed
  with l g inv' r p show ?case by simp
qed

lemma get_many_spec:
  assumes "cache_inv s"
  shows "\<exists>s'. get_many keys s = Inr (found_at keys s, s') \<and> cache_inv s' \<and>
              run (map (\<lambda>(now, k). Get now k) keys) s = Inr s'"
proof -
  have "(\<lambda>k. case found_at keys s k of None \<Rightarrow> Map.empty k | Some x \<Rightarrow> Some x) = found_at keys s"
    by (rule ext) (simp split: option.splits)
  with get_many_loop_spec [OF assms, of keys Map.empty] show ?thesis
    by (simp add: get_many_def)
qed

lemma first_reading_Some: "first_reading keys k = Some now \<Longrightarrow> (now, k) \<in> set keys"
  by (induction keys) (auto split: if_splits)

lemma first_reading_None: "first_reading keys k = None \<longleftrightarrow> k \<notin> snd ` set keys"
  by (induction keys) (auto split: if_splits)

lemma first_reading_same:
  "first_reading (map (Pair now) ks) k = (if k \<in> set ks then Some now else None)"
  by (induction ks) auto

lemma found_at_same:
  "found_at (map (Pair now) ks) s k = (if k \<in> set ks then live_value now s k else None)"
  by (simp add: found_at_def first_reading_same)

lemma cache_inv_finite_dom: "cache_inv s \<Longrightarrow> finite (dom (cache s))"
proof -
  assume "cache_inv s"
  then have "dom (cache s) \<subseteq> (\<lambda>n. key (snd n)) ` set (lru s)" by (simp add: cache_inv_def)
  then show ?thesis by (rule finite_subset) simp
qed

lemma cache_inv_card_dom: "cache_inv s \<Longrightarrow> card (dom (cache s)) \<le> length (lru s)"
proof -
  assume inv: "cache_inv s"
  then have "card (dom (cache s)) \<le> card ((\<lambda>n. key (snd n)) ` set (lru s))"
    by (intro card_mono) (simp_all add: cache_inv_def)
  also have "\<dots> \<le> card (set (lru s))" by (rule card_image_le) simp
  also have "\<dots> \<le> length (lru s)" by (rule card_length)
  finally show ?thesis .
qed

lemma delete_many_loop_spec:
  "cache_inv s \<Longrightarrow>
     \<exists>s'. delete_many_loop keys count s =
             Inr (count + word_of_nat (card (set keys \<inter> dom (cache s))), s') \<and>
          cache_inv s' \<and> cache s' = (\<lambda>k. if k \<in> set keys then None else cache s k) \<and>
          run (map Remove keys) s = Inr s'"
proof (induction keys arbitrary: count s)
  case Nil
  then show ?case by simp
next
  case (Cons k0 ks)
  show ?case
  proof (cases "cache s k0")
    case None
    then have "set (k0 # ks) \<inter> dom (cache s) = set ks \<inter> dom (cache s)" by auto
    moreover have "(\<lambda>k. if k \<in> set ks then None else cache s k) =
                   (\<lambda>k. if k \<in> set (k0 # ks) then None else cache s k)"
      using None by (auto simp: fun_eq_iff)
    ultimately show ?thesis using Cons.IH [OF Cons.prems, of count]
      by (simp add: remove_absent [OF None])
  next
    case (Some it)
    let ?s1 = "s\<lparr>lru := list_erase it (lru s), cache := (cache s)(k0 := None)\<rparr>"
    have inv1: "cache_inv ?s1" using Cons.prems Some by (rule cache_inv_erase)
    have r: "remove k0 s = Inr (True, ?s1)" using Cons.prems Some by (rule remove_found)
    have "finite (set (k0 # ks) \<inter> dom (cache s))" by simp
    moreover have "k0 \<in> set (k0 # ks) \<inter> dom (cache s)" using Some by auto
    ultimately have "Suc (card (set (k0 # ks) \<inter> dom (cache s) - {k0})) =
        card (set (k0 # ks) \<inter> dom (cache s))"
      by (rule card_Suc_Diff1)
    moreover have "set (k0 # ks) \<inter> dom (cache s) - {k0} = set ks \<inter> dom (cache ?s1)"
      by auto
    ultimately have c: "card (set (k0 # ks) \<inter> dom (cache s)) = Suc (card (set ks \<inter> dom (cache ?s1)))"
      by (simp only:)
    from Cons.IH [OF inv1, of "count + 1"] obtain s'
      where l: "delete_many_loop ks (count + 1) ?s1 =
                  Inr (count + 1 + word_of_nat (card (set ks \<inter> dom (cache ?s1))), s')"
        and inv': "cache_inv s'"
        and c': "cache s' = (\<lambda>k. if k \<in> set ks then None else cache ?s1 k)"
        and r': "run (map Remove ks) ?s1 = Inr s'" by blast
    have cnt: "count + 1 + word_of_nat (card (set ks \<inter> dom (cache ?s1))) =
               count + word_of_nat (card (set (k0 # ks) \<inter> dom (cache s)))"
      by (simp only: c of_nat_Suc add.assoc)
    have "delete_many_loop (k0 # ks) count s = delete_many_loop ks (count + 1) ?s1"
      using r by simp
    also have "\<dots> = Inr (count + 1 + word_of_nat (card (set ks \<inter> dom (cache ?s1))), s')"
      by (rule l)
    also have "\<dots> = Inr (count + word_of_nat (card (set (k0 # ks) \<inter> dom (cache s))), s')"
      by (simp only: cnt)
    finally have 1: "delete_many_loop (k0 # ks) count s =
               Inr (count + word_of_nat (card (set (k0 # ks) \<inter> dom (cache s))), s')" .
    have 2: "cache s' = (\<lambda>k. if k \<in> set (k0 # ks) then None else cache s k)"
      unfolding c' by (auto simp: fun_eq_iff)
    have 3: "run (map Remove (k0 # ks)) s = Inr s'"
      using r r' by simp
    from 1 inv' 2 3 show ?thesis by blast
  qed
qed

lemma sint_word_of_nat_32: "n < 2 ^ 31 \<Longrightarrow> sint (word_of_nat n :: 32 word) = int n"
  using sint_static_cast_int [of n] by (simp add: static_cast_int_def)

lemma delete_many_spec:
  assumes inv: "cache_inv s"
  shows "\<exists>c s'. delete_many keys s = Inr (c, s') \<and>
               sint c = int (card (set keys \<inter> dom (cache s))) \<and>
               cache_inv s' \<and> cache s' = (\<lambda>k. if k \<in> set keys then None else cache s k) \<and>
               run (map Remove keys) s = Inr s'"
proof -
  have "card (set keys \<inter> dom (cache s)) \<le> card (dom (cache s))"
    by (intro card_mono cache_inv_finite_dom [OF inv]) simp
  also have "\<dots> \<le> length (lru s)" using inv by (rule cache_inv_card_dom)
  also have "\<dots> < 2 ^ 31" using inv by (rule cache_inv_length)
  finally have "sint (word_of_nat (card (set keys \<inter> dom (cache s))) :: 32 word) =
                  int (card (set keys \<inter> dom (cache s)))"
    by (rule sint_word_of_nat_32)
  moreover from delete_many_loop_spec [OF inv, of keys 0] obtain s'
    where "delete_many keys s = Inr (word_of_nat (card (set keys \<inter> dom (cache s))), s')"
      "cache_inv s'" "cache s' = (\<lambda>k. if k \<in> set keys then None else cache s k)"
      "run (map Remove keys) s = Inr s'"
    by (auto simp: delete_many_def)
  ultimately show ?thesis by blast
qed

subsection \<open>Overwriting an entry\<close>

lemma sint_ticks:
  assumes "0 < sint (t :: 64 word)" and "sint t * 1000000000 < 2 ^ 63"
  shows "sint (t * ticks_per_second) = sint t * 1000000000"
proof -
  have tps: "sint ticks_per_second = 1000000000" by (simp add: ticks_per_second_def)
  from assms(1) have "- (2 ^ 63) \<le> sint t * 1000000000" by simp
  from this assms(2) have "signed_take_bit 63 (sint t * 1000000000) = sint t * 1000000000"
    by (rule signed_take_bit_int_eq_self)
  then show ?thesis by (simp add: sint_word_ariths tps)
qed

lemma sint_deadline:
  assumes "0 < sint (t :: 64 word)" and "sint t * 1000000000 < 2 ^ 63"
    and "sint (now :: 64 word) + sint t * 1000000000 < 2 ^ 63"
  shows "sint (now + t * ticks_per_second) = sint now + sint t * 1000000000"
proof -
  have "- (2 ^ 63) \<le> sint now" using sint_ge [of now] by simp
  with assms(1) have "- (2 ^ 63) \<le> sint now + sint t * 1000000000" by simp
  from this assms(3)
  have "signed_take_bit 63 (sint now + sint t * 1000000000) = sint now + sint t * 1000000000"
    by (rule signed_take_bit_int_eq_self)
  moreover have "sint (now + y) = signed_take_bit 63 (sint now + sint y)" for y :: "64 word"
    by (simp add: sint_word_ariths)
  ultimately show ?thesis by (simp only: sint_ticks [OF assms(1,2)])
qed

lemma deadline_in_range:
  assumes "deadline_fits opts now ttl"
  shows "sint (deadline opts now ttl) =
           (let t = (if ttl = 0 then default_ttl opts else ttl)
            in if 0 < sint t then sint now + sint t * 1000000000 else 0)"
  using assms
  by (auto simp: deadline_fits_def deadline_def Let_def sint_deadline split: if_splits)

lemma deadline_not_expired:
  assumes "deadline_fits opts now ttl"
  shows "\<not> is_expired now \<lparr>key = k, val = v, expires_at = deadline opts now ttl\<rparr>"
proof -
  from deadline_in_range [OF assms]
  have "sint now \<le> sint (deadline opts now ttl) \<or> deadline opts now ttl = 0"
    by (auto simp: Let_def deadline_def split: if_splits)
  then show ?thesis by (auto simp: is_expired_def)
qed

lemma filter_length_erase:
  "distinct (map fst ns) \<Longrightarrow> (it, e) \<in> set ns \<Longrightarrow>
     length (filter P ns) = length (filter P (list_erase it ns)) + (if P (it, e) then 1 else 0)"
proof (induction ns)
  case Nil
  then show ?case by simp
next
  case (Cons n ns)
  show ?case
  proof (cases "n = (it, e)")
    case True
    with Cons.prems have "\<forall>m \<in> set ns. fst m \<noteq> it" by (auto simp: image_iff)
    then have "list_erase it ns = ns" by (simp add: list_erase_def filter_id_conv)
    with True show ?thesis by (simp add: list_erase_def)
  next
    case False
    with Cons.prems have m: "(it, e) \<in> set ns" by simp
    have "fst n \<noteq> it"
    proof
      assume "fst n = it"
      with Cons.prems(1) have "it \<notin> fst ` set ns" by simp
      moreover from m have "fst (it, e) \<in> fst ` set ns" by (rule imageI)
      ultimately show False by simp
    qed
    moreover from Cons.prems have "distinct (map fst ns)" by simp
    ultimately show ?thesis using Cons.IH m by (simp add: list_erase_def)
  qed
qed

lemma recency_order_move:
  assumes inv: "cache_inv s" and m: "(it, e) \<in> set (lru s)" and k: "key e' = key e"
  shows "map (\<lambda>n. key (snd n)) (list_erase it (lru s) @ [(it, e')]) =
           removeAll (key e) (recency_order s) @ [key e]"
proof -
  from inv have d: "distinct (map fst (lru s))" by (simp add: cache_inv_def)
  have "\<And>n. n \<in> set (lru s) \<Longrightarrow> (fst n \<noteq> it) = (key e \<noteq> key (snd n))"
  proof -
    fix n assume n: "n \<in> set (lru s)"
    show "(fst n \<noteq> it) = (key e \<noteq> key (snd n))"
    proof (cases "fst n = it")
      case True
      with node_unique [OF d m n] show ?thesis by simp
    next
      case False
      have "key e \<noteq> key (snd n)"
      proof
        assume "key e = key (snd n)"
        then have "key (snd n) = key (snd (it, e))" by simp
        with cache_inv_same_key [OF inv n m] False show False by auto
      qed
      with False show ?thesis by simp
    qed
  qed
  then have "filter (\<lambda>n. fst n \<noteq> it) (lru s) = filter (\<lambda>n. key e \<noteq> key (snd n)) (lru s)"
    by (intro filter_cong) simp_all
  then show ?thesis
    by (simp add: list_erase_def recency_order_def k removeAll_filter_not_eq filter_map comp_def)
qed

lemma set_entry_overwrite:
  assumes inv: "cache_inv s" and c: "cache s k = Some it"
  shows "\<exists>e s'. find_entry s k = Some e \<and> (it, e) \<in> set (lru s) \<and>
           set_entry now k v ttl s = Inr s' \<and> cache_inv s' \<and>
           s' = s\<lparr>lru := list_erase it (lru s) @
                   [(it, \<lparr>key = k, val = v, expires_at = deadline (options s) now ttl\<rparr>)]\<rparr>"
proof -
  from set_entry_existing [OF inv c, of now v ttl] obtain e
    where e: "(it, e) \<in> set (lru s)" "key e = k"
      and s: "set_entry now k v ttl s =
               Inr (s\<lparr>lru := list_erase it (lru s) @
                                [(it, e\<lparr>val := v, expires_at := deadline (options s) now ttl\<rparr>)]\<rparr>)"
    by blast
  let ?e' = "\<lparr>key = k, val = v, expires_at = deadline (options s) now ttl\<rparr>"
  have eq: "e\<lparr>val := v, expires_at := deadline (options s) now ttl\<rparr> = ?e'"
    using e(2) by simp
  have "find_entry s k = Some e" using e by (auto simp: find_entry_iff [OF inv])
  moreover have "cache_inv (s\<lparr>lru := list_erase it (lru s) @ [(it, ?e')]\<rparr>)"
    using inv e(1) by (rule cache_inv_move) (simp add: e(2))
  ultimately show ?thesis using e(1) s by (simp add: eq)
qed

lemma set_entry_find:
  assumes inv: "cache_inv s"
  shows "\<exists>s'. set_entry now k v ttl s = Inr s' \<and> cache_inv s' \<and>
              find_entry s' k = Some \<lparr>key = k, val = v, expires_at = deadline (options s) now ttl\<rparr>"
proof (cases "cache s k")
  case None
  let ?e' = "\<lparr>key = k, val = v, expires_at = deadline (options s) now ttl\<rparr>"
  from set_entry_inv [OF inv, of now k v ttl] obtain s'
    where s': "set_entry now k v ttl s = Inr s'" "cache_inv s'" by blast
  with set_entry_new [OF None, of now v ttl]
  have "(new_node (lru (evict_if_needed s)), ?e') \<in> set (lru s')" by auto
  then have "find_entry s' k = Some ?e'" by (auto simp: find_entry_iff [OF s'(2)])
  with s' show ?thesis by simp
next
  case (Some it)
  let ?e' = "\<lparr>key = k, val = v, expires_at = deadline (options s) now ttl\<rparr>"
  from set_entry_overwrite [OF inv Some, of now v ttl] obtain s'
    where s': "set_entry now k v ttl s = Inr s'" "cache_inv s'"
      "s' = s\<lparr>lru := list_erase it (lru s) @ [(it, ?e')]\<rparr>" by blast
  then have "(it, ?e') \<in> set (lru s')" by simp
  then have "find_entry s' k = Some ?e'" by (auto simp: find_entry_iff [OF s'(2)])
  with s' show ?thesis by simp
qed

subsection \<open>The recency order\<close>

lemma lru_example_full_reached:
  "run [Set 1 ''A'' 1 0, Set 2 ''B'' 2 0, Set 3 ''C'' 3 0, Get 4 ''A'']
     (MemoryCache_new example_options) = Inr lru_example_full"
  by (simp add: lru_example_full_def set_entry_def get_def
      MemoryCache_new_def evict_if_needed.simps static_cast_int_def example_options_def
      ticks_per_second_def deref_def splice_end_def is_expired_def numeral_2_eq_2)

lemma lru_example_last:
  "set_entry 5 ''D'' 4 0 lru_example_full = Inr lru_example_state"
  by (simp add: lru_example_full_def lru_example_state_def set_entry_def
      evict_if_needed.simps static_cast_int_def example_options_def
      ticks_per_second_def deref_def numeral_2_eq_2 numeral_3_eq_3)

lemma lru_example_obs:
  "recency_order lru_example_state = [''C'', ''A'', ''D'']"
  "exists 6 ''B'' lru_example_state = Inr False"
  "exists 6 ''A'' lru_example_state = Inr True"
  "exists 6 ''C'' lru_example_state = Inr True"
  "exists 6 ''D'' lru_example_state = Inr True"
  by (simp_all add: lru_example_state_def recency_order_def exists_def deref_def is_expired_def)

lemma lru_example_full_inv: "cache_inv lru_example_full"
  by (simp add: cache_inv_def lru_example_full_def example_options_def)

lemma get_hit_order:
  assumes inv: "cache_inv s" and g: "get now k s = Inr (Some v, s')"
  shows "recency_order s' = removeAll k (recency_order s) @ [k]"
proof (cases "cache s k")
  case None
  with g show ?thesis by (simp add: get_absent)
next
  case (Some it)
  from get_found [OF inv Some, of now] obtain e
    where e: "(it, e) \<in> set (lru s)" "key e = k"
      and g': "get now k s =
             (if is_expired now e
              then Inr (None, s\<lparr>lru := list_erase it (lru s), cache := (cache s)(k := None),
                                misses := misses s + 1\<rparr>)
              else Inr (Some (val e), s\<lparr>lru := list_erase it (lru s) @ [(it, e)],
                                        hits := hits s + 1\<rparr>))"
    by blast
  from g g' have "s' = s\<lparr>lru := list_erase it (lru s) @ [(it, e)], hits := hits s + 1\<rparr>"
    by (simp split: if_splits)
  with recency_order_move [OF inv e(1), of e] e(2) show ?thesis
    by (simp add: recency_order_def)
qed

lemma get_live_order:
  assumes inv: "cache_inv s" and l: "live_value now s k = Some x"
  shows "\<exists>s'. get now k s = Inr (Some x, s') \<and>
              recency_order s' = removeAll k (recency_order s) @ [k]"
proof -
  from get_spec [OF inv, of now k] l obtain s' where g: "get now k s = Inr (Some x, s')"
    by auto
  with get_hit_order [OF inv g] show ?thesis by blast
qed

lemma set_entry_existing_order:
  assumes inv: "cache_inv s" and c: "cache s k = Some it"
  shows "\<exists>s'. set_entry now k v ttl s = Inr s' \<and>
              recency_order s' = removeAll k (recency_order s) @ [k]"
proof -
  let ?e' = "\<lparr>key = k, val = v, expires_at = deadline (options s) now ttl\<rparr>"
  from set_entry_overwrite [OF inv c, of now v ttl] obtain e
    where f: "find_entry s k = Some e" and m: "(it, e) \<in> set (lru s)"
      and s: "set_entry now k v ttl s = Inr (s\<lparr>lru := list_erase it (lru s) @ [(it, ?e')]\<rparr>)"
    by blast
  from f have ke: "key e = k" by (simp add: find_entry_iff [OF inv])
  from recency_order_move [OF inv m, of ?e'] ke s show ?thesis
    by (simp add: recency_order_def)
qed

lemma set_entry_room_order:
  assumes inv: "cache_inv s" and c: "cache s k = None"
    and room: "int (length (lru s)) < sint (max_size (options s))"
  shows "\<exists>s'. set_entry now k v ttl s = Inr s' \<and> recency_order s' = recency_order s @ [k]"
  by (simp add: set_entry_new [OF c] evict_if_needed_room_left [OF inv room] recency_order_def)

lemma set_entry_full_order:
  assumes inv: "cache_inv s" and c: "cache s k = None"
    and pos: "1 \<le> sint (max_size (options s))"
    and full: "int (length (lru s)) = sint (max_size (options s))"
  shows "\<exists>s'. set_entry now k v ttl s = Inr s' \<and>
              recency_order s' = tl (recency_order s) @ [k] \<and>
              find_entry s' (hd (recency_order s)) = None \<and>
              length (lru s') = length (lru s)"
proof -
  from pos full obtain oldest rest where l: "lru s = oldest # rest"
    by (cases "lru s") auto
  let ?s1 = "s\<lparr>cache := (cache s)(key (snd oldest) := None), lru := rest\<rparr>"
  let ?e' = "\<lparr>key = k, val = v, expires_at = deadline (options s) now ttl\<rparr>"
  let ?s' = "?s1\<lparr>lru := lru ?s1 @ [(new_node (lru ?s1), ?e')],
                  cache := (cache ?s1)(k \<mapsto> new_node (lru ?s1))\<rparr>"
  have ev: "evict_if_needed s = ?s1" using inv l full by (rule evict_if_needed_full)
  have s: "set_entry now k v ttl s = Inr ?s'"
    by (simp add: set_entry_new [OF c] ev)
  from set_entry_inv [OF inv, of now k v ttl] s have inv': "cache_inv ?s'" by auto
  from inv l have co: "cache s (key (snd oldest)) = Some (fst oldest)"
    by (simp add: cache_inv_def)
  with c have ne: "key (snd oldest) \<noteq> k" by auto
  have "find_entry ?s' (key (snd oldest)) = None"
  proof (rule ccontr)
    assume "find_entry ?s' (key (snd oldest)) \<noteq> None"
    then obtain x where "find_entry ?s' (key (snd oldest)) = Some x" by auto
    then have "(\<exists>it. (it, x) \<in> set (lru ?s')) \<and> key x = key (snd oldest)"
      by (rule find_entry_iff [OF inv', THEN iffD1])
    then obtain j where j: "(j, x) \<in> set (lru ?s')" "key x = key (snd oldest)"
      by blast
    with ne have "(j, x) \<in> set rest" by auto
    then have "(j, x) \<in> set (lru s)" "oldest \<in> set (lru s)" by (simp_all add: l)
    moreover from j have "key (snd (j, x)) = key (snd oldest)" by simp
    ultimately have "(j, x) = oldest" by (rule cache_inv_same_key [OF inv])
    with \<open>(j, x) \<in> set rest\<close> have "fst oldest \<in> fst ` set rest" by force
    moreover from inv l have "fst oldest \<notin> fst ` set rest" by (simp add: cache_inv_def)
    ultimately show False by simp
  qed
  with s l show ?thesis by (simp add: recency_order_def)
qed

subsection \<open>Capacity\<close>

lemma run_append:
  "run (xs @ ys) s = (case run xs s of Inl f \<Rightarrow> Inl f | Inr s' \<Rightarrow> run ys s')"
  by (induction xs arbitrary: s) (auto split: sum.splits)

lemma live_count_le: "live_count now s \<le> length (lru s)"
  by (simp add: live_count_def)

lemma set_entry_degenerate:
  assumes inv: "cache_inv s" and m: "sint (max_size (options s)) \<le> 0"
  shows "\<exists>s'. set_entry now k v ttl s = Inr s' \<and>
              map snd (lru s') =
                [\<lparr>key = k, val = v, expires_at = deadline (options s) now ttl\<rparr>]"
proof (cases "cache s k")
  case None
  from evict_if_needed_degenerate [OF inv m] show ?thesis
    by (simp add: set_entry_new [OF None])
next
  case (Some it)
  let ?e' = "\<lparr>key = k, val = v, expires_at = deadline (options s) now ttl\<rparr>"
  from set_entry_overwrite [OF inv Some, of now v ttl] obtain e
    where e: "(it, e) \<in> set (lru s)"
      and s: "set_entry now k v ttl s = Inr (s\<lparr>lru := list_erase it (lru s) @ [(it, ?e')]\<rparr>)"
    by blast
  from inv have d: "distinct (map fst (lru s))" by (simp add: cache_inv_def)
  from inv m have "int (length (lru s)) \<le> 1" by (simp add: cache_inv_def)
  with length_list_erase [OF d e] have "length (list_erase it (lru s)) = 0" by linarith
  then have "list_erase it (lru s) = []" by simp
  with s show ?thesis by simp
qed

subsection \<open>Statistics and counters\<close>

lemma count_expired_eq:
  "count_expired now ns c = c + word_of_nat (length (filter (\<lambda>n. is_expired now (snd n)) ns))"
  by (induction ns arbitrary: c) (simp_all add: add.assoc)

lemma length_filter_expired:
  "length (filter (\<lambda>n. is_expired now (snd n)) ns) + length (filter (\<lambda>n. \<not> is_expired now (snd n)) ns)
     = length ns"
  using sum_length_filter_compl [of "\<lambda>n. is_expired now (snd n)" ns] by simp

lemma sint_succ_64: "sint (w :: 64 word) < 2 ^ 63 - 1 \<Longrightarrow> sint (w + 1) = sint w + 1"
proof -
  assume b: "sint w < 2 ^ 63 - 1"
  have "- (2 ^ 63) \<le> sint w" using sint_ge [of w] by simp
  then have "- (2 ^ 63) \<le> sint w + 1" by linarith
  moreover from b have "sint w + 1 < 2 ^ 63" by linarith
  ultimately have "signed_take_bit 63 (sint w + 1) = sint w + 1"
    by (rule signed_take_bit_int_eq_self)
  then show ?thesis by (simp add: sint_word_ariths)
qed

lemma step_counters:
  assumes inv: "cache_inv s" and st: "step c s = Inr s'"
  shows "(hits s' = hits s \<or> hits s' = hits s + 1) \<and>
         (misses s' = misses s \<or> misses s' = misses s + 1)"
proof (cases c)
  case (Get now k)
  show ?thesis
  proof (cases "cache s k")
    case None
    with st Get show ?thesis by (auto simp: get_absent)
  next
    case (Some it)
    from get_found [OF inv Some, of now] st Get show ?thesis
      by (auto split: if_splits)
  qed
next
  case (Set now k v ttl)
  with set_entry_inv [OF inv, of now k v ttl] st show ?thesis by auto
next
  case (Remove k)
  with remove_inv [OF inv, of k] st show ?thesis by auto
next
  case (Exists now k)
  with st show ?thesis by (auto split: sum.splits)
next
  case Clear
  with st show ?thesis by (auto simp: clear_def)
next
  case Close
  with st show ?thesis by (auto simp: clear_def close_def)
next
  case (Stats now)
  with st show ?thesis by auto
next
  case (CleanupExpired now)
  with st show ?thesis by (auto simp: cleanup_expired_eq)
qed

lemma counter_step_bounds:
  assumes "w' = w \<or> w' = w + 1" and "sint (w :: 64 word) < 2 ^ 63 - 1"
  shows "sint w \<le> sint w' \<and> sint w' \<le> sint w + 1"
  using assms sint_succ_64 [of w] by auto

lemma run_counters:
  "cache_inv s \<Longrightarrow> run cs s = Inr s' \<Longrightarrow>
   sint (hits s) + int (length cs) < 2 ^ 63 \<Longrightarrow> sint (misses s) + int (length cs) < 2 ^ 63 \<Longrightarrow>
     sint (hits s) \<le> sint (hits s') \<and> sint (hits s') \<le> sint (hits s) + int (length cs) \<and>
     sint (misses s) \<le> sint (misses s') \<and> sint (misses s') \<le> sint (misses s) + int (length cs)"
proof (induction cs arbitrary: s)
  case Nil
  then show ?case by simp
next
  case (Cons c cs)
  from step_inv [OF Cons.prems(1), of c] obtain s1
    where s1: "step c s = Inr s1" "cache_inv s1" by blast
  with Cons.prems(2) have r: "run cs s1 = Inr s'" by simp
  from Cons.prems(3,4) have b: "sint (hits s) < 2 ^ 63 - 1" "sint (misses s) < 2 ^ 63 - 1"
    by simp_all
  from step_counters [OF Cons.prems(1) s1(1)] b
  have h: "sint (hits s) \<le> sint (hits s1) \<and> sint (hits s1) \<le> sint (hits s) + 1"
    and m: "sint (misses s) \<le> sint (misses s1) \<and> sint (misses s1) \<le> sint (misses s) + 1"
    by (simp_all add: counter_step_bounds)
  from h m Cons.prems(3,4)
  have "sint (hits s1) + int (length cs) < 2 ^ 63" "sint (misses s1) + int (length cs) < 2 ^ 63"
    by simp_all
  from Cons.IH [OF s1(2) r this] h m show ?case by simp
qed

subsection \<open>The deadline of an entry\<close>

text \<open>What \<open>set\<close> stores while the arithmetic of the deadline is in range: with \<open>t\<close> the
  time-to-live after the substitution of the default, the sentinel when \<open>t\<close> is not
  positive, so that the entry never expires, and otherwise the tick \<open>now + t\<close>, and the
  entry is expired exactly at the readings after it. The reading \<open>now\<close> is not before
  the epoch of the clock.\<close>

lemma set_entry_in_range:
  assumes inv: "cache_inv s" and clock: "0 \<le> sint now"
    and fit: "deadline_fits (options s) now ttl"
    and t: "t = (if ttl = 0 then default_ttl (options s) else ttl)"
  shows "\<exists>s' d. set_entry now k v ttl s = Inr s' \<and>
           find_entry s' k = Some \<lparr>key = k, val = v, expires_at = d\<rparr> \<and>
           d = (if 0 < sint t then now + t * ticks_per_second else 0) \<and>
           sint d = (if 0 < sint t then sint now + sint t * 1000000000 else 0) \<and>
           (\<forall>later. exists later k s' =
              Inr (\<not> (0 < sint t \<and> sint now + sint t * 1000000000 < sint later))) \<and>
           (sint t \<le> 0 \<longrightarrow> (\<forall>later. exists later k s' = Inr True))"
proof -
  let ?d = "deadline (options s) now ttl"
  have d: "?d = (if 0 < sint t then now + t * ticks_per_second else 0)"
    by (simp add: deadline_def t)
  from deadline_in_range [OF fit]
  have sd: "sint ?d = (if 0 < sint t then sint now + sint t * 1000000000 else 0)"
    by (simp add: t)
  from set_entry_find [OF inv, of now k v ttl] obtain s'
    where s': "set_entry now k v ttl s = Inr s'" "cache_inv s'"
      "find_entry s' k = Some \<lparr>key = k, val = v, expires_at = ?d\<rparr>"
    by auto
  have x: "is_expired later \<lparr>key = k, val = v, expires_at = ?d\<rparr> \<longleftrightarrow>
             0 < sint t \<and> sint now + sint t * 1000000000 < sint later" for later
  proof (cases "0 < sint t")
    case True
    with sd clock have "0 < sint ?d" by simp
    then have "?d \<noteq> 0" by auto
    with True sd show ?thesis by (simp add: is_expired_def)
  next
    case False
    with d show ?thesis by (simp add: is_expired_def)
  qed
  have e: "\<forall>later. exists later k s' =
             Inr (\<not> (0 < sint t \<and> sint now + sint t * 1000000000 < sint later))"
    using x by (simp add: exists_spec [OF s'(2)] live_value_def s'(3))
  then have "sint t \<le> 0 \<longrightarrow> (\<forall>later. exists later k s' = Inr True)" by simp
  with s'(1,3) d sd e show ?thesis by blast
qed

section \<open>The claims\<close>

text \<open>
  C1, as amended. For every configured \<open>max_size\<close> and every sequence of calls on a new
  cache in which each \<open>set\<close> computes its deadline within the range of the 64-bit tick
  count, every \<open>set\<close> completes without fault (the eviction loop terminates) and after it
  the number of entries in the store, live or not, is at most \<open>max 1 max_size\<close>: at most
  \<open>max_size\<close> when \<open>max_size\<close> is 1 or more. When \<open>max_size\<close> is zero or negative the
  eviction empties the store before the insertion, and after the \<open>set\<close> the store holds
  exactly one entry, the one just set, which is live. What a \<open>set\<close> does whose deadline
  overflows is left out here.
\<close>

theorem capacity_bound:
  assumes fits: "list_all (call_fits opts) calls" and fit: "deadline_fits opts now ttl"
  shows "\<exists>s. run (calls @ [Set now k v ttl]) (MemoryCache_new opts) = Inr s \<and>
        int (live_count later s) \<le> int (length (lru s)) \<and>
        int (length (lru s)) \<le> max 1 (sint (max_size opts)) \<and>
        (1 \<le> sint (max_size opts) \<longrightarrow> int (length (lru s)) \<le> sint (max_size opts)) \<and>
        (sint (max_size opts) \<le> 0 \<longrightarrow> recency_order s = [k] \<and> live_count now s = 1)"
proof -
  from run_inv [OF cache_inv_new, of calls opts] obtain s0 :: "'a MemoryCache"
    where s0: "run calls (MemoryCache_new opts) = Inr s0" "cache_inv s0"
      "options s0 = options (MemoryCache_new opts :: 'a MemoryCache)" by blast
  then have o0: "options s0 = opts" by (simp add: MemoryCache_new_def)
  from set_entry_inv [OF s0(2), of now k v ttl] obtain s
    where s: "set_entry now k v ttl s0 = Inr s" "cache_inv s" "options s = options s0" by blast
  have r: "run (calls @ [Set now k v ttl]) (MemoryCache_new opts) = Inr s"
    by (simp add: run_append s0(1) s(1))
  from s(2,3) o0 have b: "int (length (lru s)) \<le> max 1 (sint (max_size opts))"
    by (simp add: cache_inv_def)
  then have b1: "1 \<le> sint (max_size opts) \<longrightarrow> int (length (lru s)) \<le> sint (max_size opts)"
    by linarith
  have d: "sint (max_size opts) \<le> 0 \<longrightarrow> recency_order s = [k] \<and> live_count now s = 1"
  proof
    assume "sint (max_size opts) \<le> 0"
    with o0 have "sint (max_size (options s0)) \<le> 0" by simp
    from set_entry_degenerate [OF s0(2) this, of now k v ttl] s(1) o0
    have "map snd (lru s) = [\<lparr>key = k, val = v, expires_at = deadline opts now ttl\<rparr>]"
      by simp
    then obtain n where n: "lru s = [n]"
      "snd n = \<lparr>key = k, val = v, expires_at = deadline opts now ttl\<rparr>" by auto
    with deadline_not_expired [OF fit, of k v]
    show "recency_order s = [k] \<and> live_count now s = 1"
      by (simp add: recency_order_def live_count_def)
  qed
  have "int (live_count later s) \<le> int (length (lru s))" by (simp add: live_count_le)
  with r b b1 d show ?thesis by blast
qed

theorem capacity_bound_witness:
  "list_all (call_fits example_options)
     [Set 1 ''A'' 1 0, Set 2 ''B'' 2 0, Set 3 ''C'' 3 0, Get 4 ''A'' :: nat call] \<and>
   deadline_fits example_options 5 0 \<and>
   list_all (call_fits zero_capacity_options) ([] :: nat call list) \<and>
   deadline_fits zero_capacity_options 1 0 \<and>
   (\<exists>s. run ([Set 1 ''A'' 1 0, Set 2 ''B'' 2 0, Set 3 ''C'' 3 0, Get 4 ''A''] @ [Set 5 ''D'' 4 0])
            (MemoryCache_new example_options) = Inr s \<and>
         int (length (lru s)) \<le> 3 \<and> int (live_count 6 (s :: nat MemoryCache)) \<le> 3) \<and>
   (\<exists>s. run ([] @ [Set 1 ''a'' 7 0]) (MemoryCache_new zero_capacity_options) = Inr s \<and>
         recency_order s = [''a''] \<and> live_count 1 (s :: nat MemoryCache) = 1)"
proof -
  have f1: "list_all (call_fits example_options)
     [Set 1 ''A'' 1 0, Set 2 ''B'' 2 0, Set 3 ''C'' 3 0, Get 4 ''A'' :: nat call]"
    and f2: "deadline_fits example_options 5 0"
    by (simp_all add: deadline_fits_def example_options_def)
  have f3: "list_all (call_fits zero_capacity_options) ([] :: nat call list)"
    and f4: "deadline_fits zero_capacity_options 1 0"
    by (simp_all add: deadline_fits_def zero_capacity_options_def)
  from capacity_bound [OF f1 f2, of "''D''" 4 6]
  have 1: "\<exists>s. run ([Set 1 ''A'' 1 0, Set 2 ''B'' 2 0, Set 3 ''C'' 3 0, Get 4 ''A''] @ [Set 5 ''D'' 4 0])
            (MemoryCache_new example_options) = Inr s \<and>
         int (length (lru s)) \<le> 3 \<and> int (live_count 6 (s :: nat MemoryCache)) \<le> 3"
    by (auto simp: example_options_def)
  from capacity_bound [OF f3 f4, of "''a''" 7 1]
  have 2: "\<exists>s. run ([] @ [Set 1 ''a'' 7 0]) (MemoryCache_new zero_capacity_options) = Inr s \<and>
         recency_order s = [''a''] \<and> live_count 1 (s :: nat MemoryCache) = 1"
    by (auto simp: zero_capacity_options_def)
  from f1 f2 f3 f4 1 2 show ?thesis by blast
qed

text \<open>The claim as stated fails for a capacity of zero: after one \<open>set\<close> the cache is not
  empty. It holds one live entry, more than \<open>max_size\<close>, which \<open>exists\<close> and \<open>get\<close>
  find.\<close>

theorem zero_capacity_counterexample:
  "run [Set 1 ''a'' 7 0] (MemoryCache_new zero_capacity_options) = Inr zero_capacity_state \<and>
   sint (max_size (options zero_capacity_state)) = 0 \<and>
   live_count 1 zero_capacity_state = 1 \<and>
   exists 1 ''a'' zero_capacity_state = Inr True \<and>
   get 1 ''a'' zero_capacity_state =
     Inr (Some 7, zero_capacity_state\<lparr>hits := 1\<rparr>)"
  by (simp add: set_entry_def get_def exists_def MemoryCache_new_def evict_if_needed.simps
      static_cast_int_def zero_capacity_options_def zero_capacity_state_def
      ticks_per_second_def deref_def splice_end_def is_expired_def live_count_def)

text \<open>
  C2. Eviction removes the least recently used entry. A \<open>get\<close> that returns a value and
  a \<open>set\<close> of a key that is in the store move the key to the back of the recency order
  (most recently used); a \<open>set\<close> of a new key below capacity appends the key; a \<open>set\<close>
  of a new key at capacity removes the head of the recency order, and nothing else, and
  appends the key. With \<open>max_size = 3\<close>: after the sets of A, B and C, a \<open>get\<close> of A and
  the \<open>set\<close> of D, the recency order is C, A, D: the evicted key is B, not A or C.
\<close>

theorem lru_eviction_order:
  assumes inv: "cache_inv s"
  shows "(\<forall>x. live_value now s k = Some x \<longrightarrow>
            (\<exists>s'. get now k s = Inr (Some x, s') \<and>
                   recency_order s' = removeAll k (recency_order s) @ [k])) \<and>
         (cache s k \<noteq> None \<longrightarrow>
            (\<exists>s'. set_entry now k v ttl s = Inr s' \<and>
                   recency_order s' = removeAll k (recency_order s) @ [k])) \<and>
         (cache s k = None \<and> int (length (lru s)) < sint (max_size (options s)) \<longrightarrow>
            (\<exists>s'. set_entry now k v ttl s = Inr s' \<and>
                   recency_order s' = recency_order s @ [k])) \<and>
         (cache s k = None \<and> 1 \<le> sint (max_size (options s)) \<and>
          int (length (lru s)) = sint (max_size (options s)) \<longrightarrow>
            (\<exists>s'. set_entry now k v ttl s = Inr s' \<and>
                   recency_order s' = tl (recency_order s) @ [k] \<and>
                   find_entry s' (hd (recency_order s)) = None)) \<and>
         run [Set 1 ''A'' 1 0, Set 2 ''B'' 2 0, Set 3 ''C'' 3 0, Get 4 ''A'']
             (MemoryCache_new example_options) = Inr lru_example_full \<and>
         recency_order lru_example_full = [''B'', ''C'', ''A''] \<and>
         set_entry 5 ''D'' 4 0 lru_example_full = Inr lru_example_state \<and>
         recency_order lru_example_state = [''C'', ''A'', ''D''] \<and>
         exists 6 ''B'' lru_example_state = Inr False \<and>
         exists 6 ''A'' lru_example_state = Inr True \<and>
         exists 6 ''C'' lru_example_state = Inr True \<and>
         exists 6 ''D'' lru_example_state = Inr True"
proof -
  have 1: "\<forall>x. live_value now s k = Some x \<longrightarrow>
            (\<exists>s'. get now k s = Inr (Some x, s') \<and>
                   recency_order s' = removeAll k (recency_order s) @ [k])"
    using get_live_order [OF inv] by blast
  have 2: "cache s k \<noteq> None \<longrightarrow>
            (\<exists>s'. set_entry now k v ttl s = Inr s' \<and>
                   recency_order s' = removeAll k (recency_order s) @ [k])"
    using set_entry_existing_order [OF inv] by blast
  have 3: "cache s k = None \<and> int (length (lru s)) < sint (max_size (options s)) \<longrightarrow>
            (\<exists>s'. set_entry now k v ttl s = Inr s' \<and>
                   recency_order s' = recency_order s @ [k])"
    using set_entry_room_order [OF inv] by blast
  have 4: "cache s k = None \<and> 1 \<le> sint (max_size (options s)) \<and>
          int (length (lru s)) = sint (max_size (options s)) \<longrightarrow>
            (\<exists>s'. set_entry now k v ttl s = Inr s' \<and>
                   recency_order s' = tl (recency_order s) @ [k] \<and>
                   find_entry s' (hd (recency_order s)) = None)"
    using set_entry_full_order [OF inv, of k now v ttl] by blast
  have 5: "recency_order lru_example_full = [''B'', ''C'', ''A'']"
    by (simp add: recency_order_def lru_example_full_def)
  from 1 2 3 4 5 lru_example_full_reached lru_example_last lru_example_obs show ?thesis
    by blast
qed

theorem lru_eviction_order_witness:
  "cache_inv lru_example_full \<and> recency_order lru_example_full = [''B'', ''C'', ''A''] \<and>
   live_value 4 lru_example_full ''B'' = Some 2 \<and>
   (\<exists>s'. get 4 ''B'' lru_example_full = Inr (Some 2, s') \<and>
          recency_order s' = [''C'', ''A'', ''B'']) \<and>
   cache lru_example_full ''C'' = Some 2 \<and>
   (\<exists>s'. set_entry 5 ''C'' 9 0 lru_example_full = Inr s' \<and>
          recency_order s' = [''B'', ''A'', ''C'']) \<and>
   cache lru_example_full ''D'' = None \<and>
   1 \<le> sint (max_size (options lru_example_full)) \<and>
   int (length (lru lru_example_full)) = sint (max_size (options lru_example_full)) \<and>
   (\<exists>s'. set_entry 5 ''D'' 4 0 lru_example_full = Inr s' \<and>
          recency_order s' = [''C'', ''A'', ''D''] \<and> find_entry s' ''B'' = None)"
proof -
  have r: "recency_order lru_example_full = [''B'', ''C'', ''A'']"
    by (simp add: recency_order_def lru_example_full_def)
  have l: "live_value 4 lru_example_full ''B'' = Some 2"
    by (simp add: live_value_def find_entry_def deref_def is_expired_def lru_example_full_def)
  have c: "cache lru_example_full ''C'' = Some 2" "cache lru_example_full ''D'' = None"
    by (simp_all add: lru_example_full_def)
  have m: "1 \<le> sint (max_size (options lru_example_full))"
    "int (length (lru lru_example_full)) = sint (max_size (options lru_example_full))"
    by (simp_all add: lru_example_full_def example_options_def)
  from lru_eviction_order [OF lru_example_full_inv, of 4 "''B''"] l
  have 1: "\<exists>s'. get 4 ''B'' lru_example_full = Inr (Some 2, s') \<and>
          recency_order s' = [''C'', ''A'', ''B'']"
    by (simp add: r)
  from lru_eviction_order [OF lru_example_full_inv, of 5 "''C''" 9 0] c(1)
  have 2: "\<exists>s'. set_entry 5 ''C'' 9 0 lru_example_full = Inr s' \<and>
          recency_order s' = [''B'', ''A'', ''C'']"
    by (simp add: r)
  from lru_eviction_order [OF lru_example_full_inv, of 5 "''D''" 4 0] c(2) m
  have "\<exists>s'. set_entry 5 ''D'' 4 0 lru_example_full = Inr s' \<and>
          recency_order s' = tl (recency_order lru_example_full) @ [''D''] \<and>
          find_entry s' (hd (recency_order lru_example_full)) = None"
    by blast
  then have 3: "\<exists>s'. set_entry 5 ''D'' 4 0 lru_example_full = Inr s' \<and>
          recency_order s' = [''C'', ''A'', ''D''] \<and> find_entry s' ''B'' = None"
    by (simp add: r)
  from lru_example_full_inv r l c m 1 2 3 show ?thesis by blast
qed

text \<open>
  C3. An entry with a finite deadline strictly in the past is logically absent, even
  while it is still in the store: \<open>get\<close> returns absent for its key, \<open>exists\<close> returns
  false, and \<open>get_many\<close>, the only other operation that returns values, has no value
  for the key in its result when its readings of the clock are not before \<open>now\<close>. No
  expired value is ever returned: whatever \<open>get\<close> or \<open>get_many\<close> returns for a key is
  the value of the entry stored under that key, and that entry is not expired at the
  reading of the clock of that \<open>get\<close>.
\<close>

theorem expired_entry_never_returned:
  assumes inv: "cache_inv s" and f: "find_entry s k = Some e"
    and finite_deadline: "expires_at e \<noteq> 0" and past: "sint (expires_at e) < sint now"
  shows "(\<exists>s'. get now k s = Inr (None, s')) \<and> exists now k s = Inr False \<and>
         ((\<forall>(t, j) \<in> set keys. sint now \<le> sint t) \<longrightarrow>
            (\<exists>m s'. get_many keys s = Inr (m, s') \<and> m k = None)) \<and>
         (\<forall>j x s'. get now j s = Inr (Some x, s') \<longrightarrow>
            (\<exists>d. find_entry s j = Some d \<and> \<not> is_expired now d \<and> val d = x)) \<and>
         (\<forall>j x m s'. get_many keys s = Inr (m, s') \<and> m j = Some x \<longrightarrow>
            (\<exists>t d. (t, j) \<in> set keys \<and> find_entry s j = Some d \<and>
                   \<not> is_expired t d \<and> val d = x))"
proof -
  from finite_deadline past have "is_expired now e" by (simp add: is_expired_def)
  with f have l: "live_value now s k = None" by (simp add: live_value_def)
  from get_spec [OF inv, of now k] l have 1: "\<exists>s'. get now k s = Inr (None, s')" by auto
  from l have 2: "exists now k s = Inr False" by (simp add: exists_spec [OF inv])
  from get_many_spec [OF inv, of keys] obtain u
    where u: "get_many keys s = Inr (found_at keys s, u)" by blast
  have 3: "(\<forall>(t, j) \<in> set keys. sint now \<le> sint t) \<longrightarrow>
            (\<exists>m s'. get_many keys s = Inr (m, s') \<and> m k = None)"
  proof
    assume later: "\<forall>(t, j) \<in> set keys. sint now \<le> sint t"
    have "found_at keys s k = None"
    proof (cases "first_reading keys k")
      case None
      then show ?thesis by (simp add: found_at_def)
    next
      case (Some t)
      then have "(t, k) \<in> set keys" by (rule first_reading_Some)
      with later have "sint now \<le> sint t" by auto
      with finite_deadline past have "is_expired t e" by (simp add: is_expired_def)
      with f Some show ?thesis by (simp add: found_at_def live_value_def)
    qed
    with u show "\<exists>m s'. get_many keys s = Inr (m, s') \<and> m k = None" by simp
  qed
  have 4: "\<forall>j x s'. get now j s = Inr (Some x, s') \<longrightarrow>
            (\<exists>d. find_entry s j = Some d \<and> \<not> is_expired now d \<and> val d = x)"
  proof (intro allI impI)
    fix j x s' assume "get now j s = Inr (Some x, s')"
    with get_spec [OF inv, of now j] have "live_value now s j = Some x" by auto
    then show "\<exists>d. find_entry s j = Some d \<and> \<not> is_expired now d \<and> val d = x"
      by (simp add: live_value_Some_iff)
  qed
  have 5: "\<forall>j x m s'. get_many keys s = Inr (m, s') \<and> m j = Some x \<longrightarrow>
            (\<exists>t d. (t, j) \<in> set keys \<and> find_entry s j = Some d \<and>
                   \<not> is_expired t d \<and> val d = x)"
  proof (intro allI impI)
    fix j x m s' assume "get_many keys s = Inr (m, s') \<and> m j = Some x"
    with u have "found_at keys s j = Some x" by simp
    then obtain t where t: "first_reading keys j = Some t" "live_value t s j = Some x"
      by (auto simp: found_at_def split: option.splits)
    from t(1) have "(t, j) \<in> set keys" by (rule first_reading_Some)
    with t(2) show "\<exists>t d. (t, j) \<in> set keys \<and> find_entry s j = Some d \<and>
                   \<not> is_expired t d \<and> val d = x"
      by (auto simp: live_value_Some_iff)
  qed
  from 1 2 3 4 5 show ?thesis by blast
qed

theorem expired_entry_never_returned_witness:
  "cache_inv stale_state \<and> find_entry stale_state ''a'' = Some stale_entry \<and>
   expires_at stale_entry \<noteq> 0 \<and>
   sint (expires_at stale_entry) < sint (2000000000 :: time_point) \<and>
   sint (2000000000 :: time_point) \<le> sint (2000000001 :: time_point) \<and>
   sint (2000000000 :: time_point) \<le> sint (2000000002 :: time_point) \<and>
   (\<exists>s'. get 2000000000 ''a'' stale_state = Inr (None, s')) \<and>
   exists 2000000000 ''a'' stale_state = Inr False \<and>
   (\<exists>m s'. get_many [(2000000001, ''a''), (2000000002, ''b'')] stale_state = Inr (m, s') \<and>
           m ''a'' = None)"
proof -
  have h1: "expires_at stale_entry \<noteq> 0"
    and h2: "sint (expires_at stale_entry) < sint (2000000000 :: time_point)"
    by (simp_all add: stale_entry_def)
  have h3: "\<forall>(t, j) \<in> set [(2000000001, ''a''), (2000000002, ''b'')].
              sint (2000000000 :: time_point) \<le> sint (t :: time_point)"
    by simp
  from expired_entry_never_returned [OF stale_state_inv stale_state_find h1 h2,
      of "[(2000000001, ''a''), (2000000002, ''b'')]"]
    stale_state_inv stale_state_find h1 h2 h3
  show ?thesis by simp
qed

text \<open>
  C4, at a time-to-live whose ticks are beyond the range of the tick count. The claim
  gives an entry set with a positive time-to-live the deadline \<open>now + ttl\<close> and has it
  expired exactly at the readings after that deadline, and \<open>set\<close> does so while the sum
  is in range (\<open>set_entry_in_range\<close>). For
  \<^verbatim>\<open>set("a", 7, std::chrono::seconds{9223372037})\<close> at tick 1 on a new cache the sum
  is out of range: the deadline stored is the sum wrapped around, the tick
  -9223372036709551615, which is before the reading of the \<open>set\<close> itself. At that very
  reading \<open>exists\<close> answers false and \<open>get\<close> answers absent and erases the entry, where
  the claim has the entry unexpired for the 9223372037 seconds to come.
\<close>

theorem deadline_wraps_around:
  "deadline_fits example_options 1 9223372037 = False \<and>
   set_entry 1 ''a'' 7 9223372037 (MemoryCache_new example_options) = Inr overflow_state \<and>
   find_entry overflow_state ''a'' =
     Some \<lparr>key = ''a'', val = 7, expires_at = deadline example_options 1 9223372037\<rparr> \<and>
   sint (deadline example_options 1 9223372037) = - 9223372036709551615 \<and>
   exists 1 ''a'' overflow_state = Inr False \<and>
   get 1 ''a'' overflow_state = Inr (None, (MemoryCache_new example_options)\<lparr>misses := 1\<rparr>)"
  by (simp add: deadline_fits_def deadline_def set_entry_def get_def exists_def find_entry_def
      MemoryCache_new_def evict_if_needed.simps static_cast_int_def example_options_def
      overflow_state_def ticks_per_second_def deref_def list_erase_def is_expired_def)

text \<open>
  C5, as amended. \<open>stats\<close> reports as \<open>size\<close> the number of all entries in the store,
  expired or not (the number \<open>size\<close> returns), and as \<open>expired_count\<close> the number of
  those entries that are expired; the number of live entries is their difference.
  It reports \<open>max_size\<close> and the two counters as they are.
\<close>

theorem stats_counts_all_entries:
  assumes inv: "cache_inv s"
  shows "sint (stat_size (stats now s)) = int (length (lru s)) \<and>
         size_entries s = length (lru s) \<and>
         sint (stat_expired_count (stats now s)) =
           int (length (filter (\<lambda>n. is_expired now (snd n)) (lru s))) \<and>
         int (live_count now s) =
           sint (stat_size (stats now s)) - sint (stat_expired_count (stats now s)) \<and>
         stat_max_size (stats now s) = max_size (options s) \<and>
         stat_hits (stats now s) = hits s \<and> stat_misses (stats now s) = misses s"
proof -
  let ?x = "length (filter (\<lambda>n. is_expired now (snd n)) (lru s))"
  have 1: "sint (stat_size (stats now s)) = int (length (lru s))"
    using cache_inv_cast [OF inv] by (simp add: stats_def)
  have "?x \<le> length (lru s)" by simp
  also have "\<dots> < 2 ^ 31" using inv by (rule cache_inv_length)
  finally have "sint (word_of_nat ?x :: 32 word) = int ?x" by (rule sint_word_of_nat_32)
  then have 2: "sint (stat_expired_count (stats now s)) = int ?x"
    by (simp add: stats_def count_expired_eq)
  have 3: "int (live_count now s) =
           sint (stat_size (stats now s)) - sint (stat_expired_count (stats now s))"
    using length_filter_expired [of now "lru s"] unfolding 1 2 live_count_def by linarith
  from 1 2 3 show ?thesis by (simp add: size_entries_def) (simp add: stats_def)
qed

theorem stats_counts_all_entries_witness:
  "cache_inv stale_state \<and>
   sint (stat_size (stats 2000000000 stale_state)) = 1 \<and>
   sint (stat_expired_count (stats 2000000000 stale_state)) = 1 \<and>
   int (live_count 2000000000 stale_state) = 0"
proof -
  have "length (lru stale_state) = 1"
    "length (filter (\<lambda>n. is_expired 2000000000 (snd n)) (lru stale_state)) = 1"
    by (simp_all add: stale_state_def stale_entry_def is_expired_def)
  with stats_counts_all_entries [OF stale_state_inv, of 2000000000] stale_state_inv
  show ?thesis by simp
qed

text \<open>The claim as stated fails: the one entry of \<open>stale_state\<close> is expired at tick
  2000000000 and not yet swept, no entry is live, and \<open>stats\<close> reports a \<open>size\<close> of 1.\<close>

theorem stats_size_counterexample:
  "find_entry stale_state ''a'' = Some stale_entry \<and> is_expired 2000000000 stale_entry \<and>
   live_count 2000000000 stale_state = 0 \<and>
   stat_size (stats 2000000000 stale_state) = 1 \<and>
   stat_expired_count (stats 2000000000 stale_state) = 1"
proof -
  have "live_count 2000000000 stale_state = 0"
    by (simp add: live_count_def stale_state_def stale_entry_def is_expired_def)
  moreover have "stat_size (stats 2000000000 stale_state) = 1"
    by (simp add: stats_def stale_state_def static_cast_int_def)
  moreover have "stat_expired_count (stats 2000000000 stale_state) = 1"
    by (simp add: stats_def stale_state_def stale_entry_def is_expired_def)
  ultimately show ?thesis using stale_state_find stale_entry_expired by blast
qed

text \<open>
  C6, as amended. A \<open>get\<close> that finds an expired entry removes the entry from the list
  and from the index, counts a miss and returns absent: result and final state are those
  of a \<open>get\<close> after the key had been removed. An \<open>exists\<close> that finds an expired entry
  returns false and leaves the store as it is: the entry stays until a \<open>get\<close>, a
  \<open>remove\<close>, an eviction or the sweep takes it out.
\<close>

theorem lazy_expiration_on_get:
  assumes inv: "cache_inv s" and f: "find_entry s k = Some e" and x: "is_expired now e"
  shows "(\<exists>s'. get now k s = Inr (None, s') \<and> find_entry s' k = None \<and>
               k \<notin> set (recency_order s') \<and> Suc (length (lru s')) = length (lru s) \<and>
               misses s' = misses s + 1 \<and> hits s' = hits s \<and>
               (\<exists>r. remove k s = Inr (True, r) \<and> get now k r = Inr (None, s'))) \<and>
         exists now k s = Inr False \<and> step (Exists now k) s = Inr s"
proof -
  from f obtain it where c: "cache s k = Some it"
    by (auto simp: find_entry_def split: option.splits)
  let ?r = "s\<lparr>lru := list_erase it (lru s), cache := (cache s)(k := None)\<rparr>"
  let ?s' = "s\<lparr>lru := list_erase it (lru s), cache := (cache s)(k := None),
               misses := misses s + 1\<rparr>"
  from inv have d: "distinct (map fst (lru s))" by (simp add: cache_inv_def)
  from get_found [OF inv c, of now] f x have g: "get now k s = Inr (None, ?s')"
    and m: "(it, e) \<in> set (lru s)" by auto
  have inv_r: "cache_inv ?r" using inv c by (rule cache_inv_erase)
  have f_r: "find_entry ?r k = None" by (simp add: find_entry_erase [OF inv c])
  then have f': "find_entry ?s' k = None" by (simp add: find_entry_def)
  have "k \<notin> set (recency_order ?r)"
  proof
    assume "k \<in> set (recency_order ?r)"
    then obtain n where "n \<in> set (lru ?r)" "key (snd n) = k"
      by (auto simp: recency_order_def)
    then have "find_entry ?r k = Some (snd n)"
      by (simp add: find_entry_iff [OF inv_r]) (metis prod.collapse)
    with f_r show False by simp
  qed
  then have o: "k \<notin> set (recency_order ?s')" by (simp add: recency_order_def)
  have len: "Suc (length (lru ?s')) = length (lru s)"
    using length_list_erase [OF d m] by simp
  have rm: "remove k s = Inr (True, ?r)" using inv c by (rule remove_found)
  have "cache ?r k = None" by simp
  then have "get now k ?r = Inr (None, ?r\<lparr>misses := misses ?r + 1\<rparr>)" by (rule get_absent)
  then have g_r: "get now k ?r = Inr (None, ?s')" by simp
  from f x have "live_value now s k = None" by (simp add: live_value_def)
  then have ex: "exists now k s = Inr False" by (simp add: exists_spec [OF inv])
  then have st: "step (Exists now k) s = Inr s" by simp
  from g f' o len rm g_r have
    "\<exists>s'. get now k s = Inr (None, s') \<and> find_entry s' k = None \<and>
               k \<notin> set (recency_order s') \<and> Suc (length (lru s')) = length (lru s) \<and>
               misses s' = misses s + 1 \<and> hits s' = hits s \<and>
               (\<exists>r. remove k s = Inr (True, r) \<and> get now k r = Inr (None, s'))"
    by (intro exI [of _ ?s']) simp
  with ex st show ?thesis by blast
qed

theorem lazy_expiration_on_get_witness:
  "cache_inv stale_state \<and> find_entry stale_state ''a'' = Some stale_entry \<and>
   is_expired 2000000000 stale_entry \<and>
   get 2000000000 ''a'' stale_state =
     Inr (None, stale_state\<lparr>lru := [], cache := Map.empty, misses := 1\<rparr>) \<and>
   exists 2000000000 ''a'' stale_state = Inr False \<and>
   step (Exists 2000000000 ''a'') stale_state = Inr stale_state"
proof -
  have g: "get 2000000000 ''a'' stale_state =
     Inr (None, stale_state\<lparr>lru := [], cache := Map.empty, misses := 1\<rparr>)"
    by (simp add: get_def stale_state_def stale_entry_def deref_def is_expired_def list_erase_def)
  from lazy_expiration_on_get [OF stale_state_inv stale_state_find stale_entry_expired]
  have "exists 2000000000 ''a'' stale_state = Inr False \<and>
        step (Exists 2000000000 ''a'') stale_state = Inr stale_state" by blast
  with g stale_state_inv stale_state_find stale_entry_expired show ?thesis by blast
qed

text \<open>The claim as stated fails for \<open>exists\<close>: on \<open>stale_state\<close>, whose entry is expired
  at tick 2000000000, \<open>exists\<close> returns false and the entry is still in the store after
  the call.\<close>

theorem exists_keeps_expired_entry_counterexample:
  "find_entry stale_state ''a'' = Some stale_entry \<and> is_expired 2000000000 stale_entry \<and>
   exists 2000000000 ''a'' stale_state = Inr False \<and>
   step (Exists 2000000000 ''a'') stale_state = Inr stale_state \<and>
   size_entries stale_state = 1"
proof -
  from stale_entry_expired have "exists 2000000000 ''a'' stale_state = Inr False"
    by (simp add: exists_def stale_state_def deref_def)
  moreover from this have "step (Exists 2000000000 ''a'') stale_state = Inr stale_state"
    by simp
  moreover have "size_entries stale_state = 1"
    by (simp add: size_entries_def stale_state_def)
  ultimately show ?thesis using stale_state_find stale_entry_expired by blast
qed

text \<open>
  C7, as amended. A \<open>set\<close> on a key that is in the store, whose deadline is computed
  within the range of the 64-bit tick count, replaces the value and the deadline of the
  key's entry in place and moves the key to most recently used; the index, the counters
  and every other entry are unchanged, nothing is evicted, and the number of entries in
  the store is unchanged. The number of live (unexpired) entries is unchanged when the
  overwritten entry was not expired, and grows by one when it was expired and not yet
  swept. What a \<open>set\<close> does whose deadline overflows is left out here.
\<close>

theorem overwrite_in_place:
  assumes inv: "cache_inv s" and c: "cache s k = Some it"
    and fit: "deadline_fits (options s) now ttl"
  shows "\<exists>e s'. find_entry s k = Some e \<and> set_entry now k v ttl s = Inr s' \<and>
           lru s' = list_erase it (lru s) @
                      [(it, \<lparr>key = k, val = v, expires_at = deadline (options s) now ttl\<rparr>)] \<and>
           cache s' = cache s \<and> options s' = options s \<and> hits s' = hits s \<and>
           misses s' = misses s \<and>
           find_entry s' k = Some \<lparr>key = k, val = v, expires_at = deadline (options s) now ttl\<rparr> \<and>
           (\<forall>k'. k' \<noteq> k \<longrightarrow> find_entry s' k' = find_entry s k') \<and>
           recency_order s' = removeAll k (recency_order s) @ [k] \<and>
           length (lru s') = length (lru s) \<and>
           live_count now s' = (if is_expired now e then Suc (live_count now s) else live_count now s)"
proof -
  let ?e' = "\<lparr>key = k, val = v, expires_at = deadline (options s) now ttl\<rparr>"
  let ?s' = "s\<lparr>lru := list_erase it (lru s) @ [(it, ?e')]\<rparr>"
  from set_entry_overwrite [OF inv c, of now v ttl] obtain e
    where f: "find_entry s k = Some e" and m: "(it, e) \<in> set (lru s)"
      and s: "set_entry now k v ttl s = Inr ?s'" and inv': "cache_inv ?s'"
    by blast
  from inv have d: "distinct (map fst (lru s))" by (simp add: cache_inv_def)
  from f have ke: "key e = k" by (simp add: find_entry_iff [OF inv])
  have 1: "find_entry ?s' k = Some ?e'"
    by (auto simp: find_entry_iff [OF inv'])
  have 2: "\<forall>k'. k' \<noteq> k \<longrightarrow> find_entry ?s' k' = find_entry s k'"
  proof (intro allI impI)
    fix k' assume ne: "k' \<noteq> k"
    have "\<And>x. find_entry ?s' k' = Some x \<longleftrightarrow> find_entry s k' = Some x"
    proof -
      fix x
      have "(\<exists>j. (j, x) \<in> set (list_erase it (lru s))) \<and> key x = k' \<longleftrightarrow>
            (\<exists>j. (j, x) \<in> set (lru s)) \<and> key x = k'"
      proof (intro iffI conjI)
        assume a: "(\<exists>j. (j, x) \<in> set (lru s)) \<and> key x = k'"
        then obtain j where j: "(j, x) \<in> set (lru s)" by blast
        have "j \<noteq> it"
        proof
          assume "j = it"
          with node_unique [OF d m j] have "x = e" by simp
          with a ke ne show False by simp
        qed
        with j show "\<exists>j. (j, x) \<in> set (list_erase it (lru s))"
          by (auto simp: set_list_erase)
      qed (auto simp: set_list_erase)
      with ne show "find_entry ?s' k' = Some x \<longleftrightarrow> find_entry s k' = Some x"
        by (auto simp: find_entry_iff [OF inv] find_entry_iff [OF inv'])
    qed
    then show "find_entry ?s' k' = find_entry s k'" by (rule option_eqI)
  qed
  have 3: "recency_order ?s' = removeAll k (recency_order s) @ [k]"
    using recency_order_move [OF inv m, of ?e'] ke by (simp add: recency_order_def)
  have 4: "length (lru ?s') = length (lru s)"
    using length_list_erase [OF d m] by simp
  have 5: "live_count now ?s' =
             (if is_expired now e then Suc (live_count now s) else live_count now s)"
    using filter_length_erase [OF d m, of "\<lambda>n. \<not> is_expired now (snd n)"]
    by (simp add: live_count_def deadline_not_expired [OF fit])
  from f s 1 2 3 4 5 show ?thesis by simp
qed

theorem overwrite_in_place_witness:
  "cache_inv stale_state \<and> cache stale_state ''a'' = Some 0 \<and>
   deadline_fits (options stale_state) 2000000000 0 \<and>
   set_entry 2000000000 ''a'' 8 0 stale_state = Inr refreshed_state \<and>
   recency_order refreshed_state = [''a''] \<and>
   length (lru refreshed_state) = length (lru stale_state)"
proof -
  have c: "cache stale_state ''a'' = Some 0" by (simp add: stale_state_def)
  have fit: "deadline_fits (options stale_state) 2000000000 0"
    by (simp add: deadline_fits_def stale_state_def example_options_def)
  from overwrite_in_place [OF stale_state_inv c fit, of 8] obtain s'
    where s': "set_entry 2000000000 ''a'' 8 0 stale_state = Inr s'"
      "recency_order s' = removeAll ''a'' (recency_order stale_state) @ [''a'']"
      "length (lru s') = length (lru stale_state)" by blast
  have "set_entry 2000000000 ''a'' 8 0 stale_state = Inr refreshed_state"
    by (simp add: set_entry_def stale_state_def refreshed_state_def stale_entry_def deref_def
        splice_end_def assign_def example_options_def ticks_per_second_def)
  with s' have "s' = refreshed_state" by simp
  with s' stale_state_inv c fit show ?thesis
    by (simp add: recency_order_def stale_state_def stale_entry_def)
qed

text \<open>The claim as stated fails for the live count: the entry of \<open>stale_state\<close> is expired
  at tick 2000000000, so no entry is live; after the overwrite one entry is live.\<close>

theorem overwrite_live_count_counterexample:
  "cache stale_state ''a'' = Some 0 \<and> live_count 2000000000 stale_state = 0 \<and>
   set_entry 2000000000 ''a'' 8 0 stale_state = Inr refreshed_state \<and>
   live_count 2000000000 refreshed_state = 1"
  by (simp add: set_entry_def stale_state_def refreshed_state_def stale_entry_def deref_def
        splice_end_def assign_def example_options_def ticks_per_second_def live_count_def
        is_expired_def)

text \<open>
  C8, as amended. \<open>clear\<close> empties the recency list and the index and leaves the two
  counters and the options as they are, so that \<open>stats\<close> afterwards reports a \<open>size\<close> of
  0 and the counters of before. No call of the cache interface and no sweep resets a
  counter: a call leaves each counter as it is or adds one to it, so over any sequence
  of calls the counters never decrease, as long as they stay within the range of their
  64-bit representation. A move assignment replaces the two counters of the assigned
  instance by those of the other instance, whatever they were.
\<close>

theorem clear_keeps_counters:
  "lru (clear s) = [] \<and> cache (clear s) = Map.empty \<and>
   hits (clear s) = hits s \<and> misses (clear s) = misses s \<and> options (clear s) = options s \<and>
   stat_size (stats now (clear s)) = 0 \<and> stat_expired_count (stats now (clear s)) = 0 \<and>
   stat_hits (stats now (clear s)) = hits s \<and> stat_misses (stats now (clear s)) = misses s \<and>
   (\<forall>c s1. cache_inv s \<and> step c s = Inr s1 \<longrightarrow>
      (hits s1 = hits s \<or> hits s1 = hits s + 1) \<and>
      (misses s1 = misses s \<or> misses s1 = misses s + 1)) \<and>
   (cache_inv s \<and> sint (hits s) + int (length calls) < 2 ^ 63 \<and>
    sint (misses s) + int (length calls) < 2 ^ 63 \<longrightarrow>
      (\<exists>s'. run calls s = Inr s' \<and> sint (hits s) \<le> sint (hits s') \<and>
             sint (misses s) \<le> sint (misses s'))) \<and>
   hits (move_assign s other) = hits other \<and> misses (move_assign s other) = misses other"
proof -
  have 1: "lru (clear s) = [] \<and> cache (clear s) = Map.empty \<and>
   hits (clear s) = hits s \<and> misses (clear s) = misses s \<and> options (clear s) = options s"
    by (simp add: clear_def)
  have 2: "stat_size (stats now (clear s)) = 0 \<and> stat_expired_count (stats now (clear s)) = 0 \<and>
   stat_hits (stats now (clear s)) = hits s \<and> stat_misses (stats now (clear s)) = misses s"
    by (simp add: stats_def clear_def static_cast_int_def)
  have 3: "\<forall>c s1. cache_inv s \<and> step c s = Inr s1 \<longrightarrow>
      (hits s1 = hits s \<or> hits s1 = hits s + 1) \<and>
      (misses s1 = misses s \<or> misses s1 = misses s + 1)"
    using step_counters [of s] by blast
  have 4: "cache_inv s \<and> sint (hits s) + int (length calls) < 2 ^ 63 \<and>
    sint (misses s) + int (length calls) < 2 ^ 63 \<longrightarrow>
      (\<exists>s'. run calls s = Inr s' \<and> sint (hits s) \<le> sint (hits s') \<and>
             sint (misses s) \<le> sint (misses s'))"
  proof
    assume a: "cache_inv s \<and> sint (hits s) + int (length calls) < 2 ^ 63 \<and>
      sint (misses s) + int (length calls) < 2 ^ 63"
    then obtain s' where s': "run calls s = Inr s'" using run_inv [of s calls] by blast
    with a run_counters [of s calls s'] show "\<exists>s'. run calls s = Inr s' \<and>
      sint (hits s) \<le> sint (hits s') \<and> sint (misses s) \<le> sint (misses s')" by blast
  qed
  have 5: "hits (move_assign s other) = hits other \<and>
           misses (move_assign s other) = misses other"
    by (simp add: move_assign_def)
  from 1 2 3 4 5 show ?thesis by blast
qed

theorem clear_keeps_counters_witness:
  "cache_inv lru_example_full \<and>
   sint (hits lru_example_full) + int (length [Get 5 ''A'', Clear, Get 6 ''A'' :: nat call]) < 2 ^ 63 \<and>
   sint (misses lru_example_full) + int (length [Get 5 ''A'', Clear, Get 6 ''A'' :: nat call]) < 2 ^ 63 \<and>
   hits (clear lru_example_full) = 1 \<and> misses (clear lru_example_full) = 0 \<and>
   stat_size (stats 6 (clear lru_example_full)) = 0 \<and>
   stat_hits (stats 6 (clear lru_example_full)) = 1 \<and>
   (\<exists>s'. run [Get 5 ''A'', Clear, Get 6 ''A''] lru_example_full = Inr s' \<and>
          sint (hits lru_example_full) \<le> sint (hits s') \<and>
          sint (misses lru_example_full) \<le> sint (misses s'))"
proof -
  have b: "sint (hits lru_example_full) + int (length [Get 5 ''A'', Clear, Get 6 ''A'' :: nat call]) < 2 ^ 63"
    "sint (misses lru_example_full) + int (length [Get 5 ''A'', Clear, Get 6 ''A'' :: nat call]) < 2 ^ 63"
    by (simp_all add: lru_example_full_def)
  have h: "hits lru_example_full = 1" "misses lru_example_full = 0"
    by (simp_all add: lru_example_full_def)
  from clear_keeps_counters [of lru_example_full 6 "[Get 5 ''A'', Clear, Get 6 ''A'']"]
    lru_example_full_inv b
  have "\<exists>s'. run [Get 5 ''A'', Clear, Get 6 ''A''] lru_example_full = Inr s' \<and>
          sint (hits lru_example_full) \<le> sint (hits s') \<and>
          sint (misses lru_example_full) \<le> sint (misses s')"
    by blast
  moreover from clear_keeps_counters [of lru_example_full 6 "[]"] h
  have "hits (clear lru_example_full) = 1 \<and> misses (clear lru_example_full) = 0 \<and>
   stat_size (stats 6 (clear lru_example_full)) = 0 \<and>
   stat_hits (stats 6 (clear lru_example_full)) = 1"
    by simp
  ultimately show ?thesis using lru_example_full_inv b by blast
qed

text \<open>The claim as stated fails for the counters over the lifetime of an instance: the
  instance in \<open>lru_example_full\<close>, reached by three sets and a \<open>get\<close> that hits, has
  counted one hit; after the move assignment of a new cache to it, it has counted
  none.\<close>

theorem move_assign_counter_counterexample:
  "run [Set 1 ''A'' 1 0, Set 2 ''B'' 2 0, Set 3 ''C'' 3 0, Get 4 ''A'']
     (MemoryCache_new example_options) = Inr lru_example_full \<and>
   hits lru_example_full = 1 \<and>
   move_assign lru_example_full (MemoryCache_new example_options) =
     MemoryCache_new example_options \<and>
   hits (move_assign lru_example_full (MemoryCache_new example_options)) = 0 \<and>
   sint (hits (move_assign lru_example_full (MemoryCache_new example_options))) <
     sint (hits lru_example_full)"
  using lru_example_full_reached
  by (simp add: move_assign_def close_def clear_def MemoryCache_new_def lru_example_full_def)

text \<open>
  C9. The bulk operations are iterations of the single-key operations: \<open>get_many\<close>
  ends in the state of one \<open>get\<close> per key and returns exactly the map from the asked
  keys that are present and unexpired, at the reading of the clock of their first
  \<open>get\<close>, to their values (other keys are left out, without a fault); with one reading
  \<open>now\<close> for all keys that is the map of the asked keys present and unexpired at
  \<open>now\<close>. \<open>delete_many\<close> ends in the state of one \<open>remove\<close> per key, erases the asked
  keys and returns the number of asked keys that were in the store.
\<close>

theorem bulk_operations_iterate:
  assumes inv: "cache_inv s"
  shows "(\<exists>s'. get_many reads s =
                 Inr (\<lambda>k. case first_reading reads k of
                             None \<Rightarrow> None
                           | Some now \<Rightarrow> live_value now s k, s') \<and>
               run (map (\<lambda>(now, k). Get now k) reads) s = Inr s') \<and>
         (\<exists>s'. get_many (map (Pair now) keys) s =
                 Inr (\<lambda>k. if k \<in> set keys then live_value now s k else None, s')) \<and>
         (\<exists>c s'. delete_many keys s = Inr (c, s') \<and>
                 sint c = int (card (set keys \<inter> dom (cache s))) \<and>
                 cache s' = (\<lambda>k. if k \<in> set keys then None else cache s k) \<and>
                 run (map Remove keys) s = Inr s')"
proof -
  from get_many_spec [OF inv, of reads]
  have 1: "\<exists>s'. get_many reads s =
                 Inr (\<lambda>k. case first_reading reads k of
                             None \<Rightarrow> None
                           | Some now \<Rightarrow> live_value now s k, s') \<and>
               run (map (\<lambda>(now, k). Get now k) reads) s = Inr s'"
    unfolding found_at_def by blast
  have "found_at (map (Pair now) keys) s =
          (\<lambda>k. if k \<in> set keys then live_value now s k else None)"
    by (rule ext) (rule found_at_same)
  with get_many_spec [OF inv, of "map (Pair now) keys"]
  have 2: "\<exists>s'. get_many (map (Pair now) keys) s =
                 Inr (\<lambda>k. if k \<in> set keys then live_value now s k else None, s')"
    by auto
  from delete_many_spec [OF inv, of keys]
  have 3: "\<exists>c s'. delete_many keys s = Inr (c, s') \<and>
                 sint c = int (card (set keys \<inter> dom (cache s))) \<and>
                 cache s' = (\<lambda>k. if k \<in> set keys then None else cache s k) \<and>
                 run (map Remove keys) s = Inr s'" by blast
  from 1 2 3 show ?thesis by blast
qed

theorem bulk_operations_iterate_witness:
  "cache_inv stale_state \<and>
   (\<exists>s'. get_many (map (Pair 5) [''a'', ''zz'']) stale_state = Inr ([''a'' \<mapsto> 7], s')) \<and>
   (\<exists>c s'. delete_many [''a'', ''zz''] stale_state = Inr (c, s') \<and> sint c = 1 \<and>
            cache s' = Map.empty)"
proof -
  have m: "(\<lambda>k. if k \<in> set [''a'', ''zz''] then live_value 5 stale_state k else None) = [''a'' \<mapsto> 7]"
    by (rule ext)
      (simp add: live_value_def find_entry_def stale_state_def stale_entry_def deref_def
        is_expired_def)
  have d: "int (card (set [''a'', ''zz''] \<inter> dom (cache stale_state))) = 1"
    by (simp add: stale_state_def)
  have e: "(\<lambda>k. if k \<in> set [''a'', ''zz''] then None else cache stale_state k) = Map.empty"
    by (rule ext) (simp add: stale_state_def)
  from bulk_operations_iterate [OF stale_state_inv, of _ 5 "[''a'', ''zz'']"] stale_state_inv
  show ?thesis unfolding m d e by blast
qed

text \<open>
  C10. For every key whose entry is in the store, \<open>remove\<close> deletes the entry and
  returns true, whether or not the entry is expired: \<open>remove\<close> never reads the clock
  or the deadline. When the entry is expired at the reading \<open>now\<close>, \<open>exists\<close> returns
  false and \<open>get\<close> returns absent for that key in that same state, so the result of
  \<open>remove\<close> reflects physical presence, not logical presence.
\<close>

theorem remove_ignores_expiry:
  assumes inv: "cache_inv s" and f: "find_entry s k = Some e"
  shows "(\<exists>s'. remove k s = Inr (True, s') \<and> cache_inv s' \<and> find_entry s' k = None \<and>
              k \<notin> set (recency_order s') \<and> Suc (length (lru s')) = length (lru s)) \<and>
         (is_expired now e \<longrightarrow>
            exists now k s = Inr False \<and> (\<exists>s'. get now k s = Inr (None, s')))"
proof -
  from f obtain it where c: "cache s k = Some it"
    by (auto simp: find_entry_def split: option.splits)
  let ?s' = "s\<lparr>lru := list_erase it (lru s), cache := (cache s)(k := None)\<rparr>"
  from inv have d: "distinct (map fst (lru s))" by (simp add: cache_inv_def)
  from cache_inv_lookup [OF inv c] obtain e' where e': "(it, e') \<in> set (lru s)" by blast
  have r: "remove k s = Inr (True, ?s')" using inv c by (rule remove_found)
  have inv': "cache_inv ?s'" using inv c by (rule cache_inv_erase)
  have f': "find_entry ?s' k = None" by (simp add: find_entry_erase [OF inv c])
  have "k \<notin> set (recency_order ?s')"
  proof
    assume "k \<in> set (recency_order ?s')"
    then obtain n where "n \<in> set (lru ?s')" "key (snd n) = k"
      by (auto simp: recency_order_def)
    then have "find_entry ?s' k = Some (snd n)"
      by (simp add: find_entry_iff [OF inv']) (metis prod.collapse)
    with f' show False by simp
  qed
  moreover have "Suc (length (lru ?s')) = length (lru s)"
    using length_list_erase [OF d e'] by simp
  ultimately have 1: "\<exists>s'. remove k s = Inr (True, s') \<and> cache_inv s' \<and> find_entry s' k = None \<and>
              k \<notin> set (recency_order s') \<and> Suc (length (lru s')) = length (lru s)"
    using r inv' f' by blast
  have 2: "is_expired now e \<longrightarrow>
            exists now k s = Inr False \<and> (\<exists>s'. get now k s = Inr (None, s'))"
  proof
    assume x: "is_expired now e"
    with f have l: "live_value now s k = None" by (simp add: live_value_def)
    from get_spec [OF inv, of now k] l have "\<exists>s'. get now k s = Inr (None, s')" by auto
    with l show "exists now k s = Inr False \<and> (\<exists>s'. get now k s = Inr (None, s'))"
      by (simp add: exists_spec [OF inv])
  qed
  from 1 2 show ?thesis ..
qed

theorem remove_ignores_expiry_witness:
  "cache_inv stale_state \<and> find_entry stale_state ''a'' = Some stale_entry \<and>
   is_expired 2000000000 stale_entry \<and>
   remove ''a'' stale_state = Inr (True, stale_state\<lparr>lru := [], cache := Map.empty\<rparr>) \<and>
   exists 2000000000 ''a'' stale_state = Inr False \<and>
   (\<exists>s'. get 2000000000 ''a'' stale_state = Inr (None, s'))"
proof -
  have r: "remove ''a'' stale_state = Inr (True, stale_state\<lparr>lru := [], cache := Map.empty\<rparr>)"
    by (simp add: remove_def stale_state_def deref_def list_erase_def)
  from remove_ignores_expiry [OF stale_state_inv stale_state_find, of 2000000000]
    stale_entry_expired
  have "exists 2000000000 ''a'' stale_state = Inr False \<and>
        (\<exists>s'. get 2000000000 ''a'' stale_state = Inr (None, s'))" by blast
  with r stale_state_inv stale_state_find stale_entry_expired show ?thesis by blast
qed

end
